theory Spec2Isabelle
  imports Main
begin

section \<open>Data model\<close>

text \<open>
  \<^verbatim>\<open>TokenResponse\<close> (api/types): \<^verbatim>\<open>expires_in\<close>, \<^verbatim>\<open>refresh_token\<close> and \<^verbatim>\<open>scope\<close> are
  optional fields, \<open>None\<close> standing for \<^verbatim>\<open>undefined\<close>. Numbers of seconds are integers.
\<close>

record TokenResponse =
  access_token :: string
  token_type :: string
  expires_in :: "int option"
  refresh_token :: "string option"
  scope :: "string option"

text \<open>
  \<^verbatim>\<open>TickTickError\<close> (utils/errors) with its fields \<^verbatim>\<open>message\<close>, \<^verbatim>\<open>code\<close>,
  \<^verbatim>\<open>statusCode\<close> and \<^verbatim>\<open>details\<close>. The subclasses only fix \<^verbatim>\<open>code\<close> and
  \<^verbatim>\<open>statusCode\<close>, so each is a function building a \<open>TickTickError\<close>.
\<close>

datatype details =
    NoDetails
  | Cause TickTickError
  | Data string
  | RetryAfter "nat option"
  | OriginalError string
  | Foreign string
and TickTickError =
  TickTickError (message: string) (code: string) (statusCode: "nat option") (details: details)

definition AuthenticationError :: "string \<Rightarrow> details \<Rightarrow> TickTickError" where
  "AuthenticationError msg d = TickTickError msg ''AUTHENTICATION_ERROR'' (Some 401) d"

definition AuthorizationError :: "string \<Rightarrow> details \<Rightarrow> TickTickError" where
  "AuthorizationError msg d = TickTickError msg ''AUTHORIZATION_ERROR'' (Some 403) d"

definition NotFoundError :: "string \<Rightarrow> details \<Rightarrow> TickTickError" where
  "NotFoundError msg d = TickTickError msg ''NOT_FOUND'' (Some 404) d"

definition ValidationError :: "string \<Rightarrow> details \<Rightarrow> TickTickError" where
  "ValidationError msg d = TickTickError msg ''VALIDATION_ERROR'' (Some 400) d"

definition RateLimitError :: "string \<Rightarrow> nat option \<Rightarrow> TickTickError" where
  "RateLimitError msg retryAfter = TickTickError msg ''RATE_LIMIT_ERROR'' (Some 429) (RetryAfter retryAfter)"

definition ApiClientError :: "string \<Rightarrow> nat \<Rightarrow> details \<Rightarrow> TickTickError" where
  "ApiClientError msg status d = TickTickError msg ''API_CLIENT_ERROR'' (Some status) d"

definition TokenRefreshError :: "string \<Rightarrow> details \<Rightarrow> TickTickError" where
  "TokenRefreshError msg d = TickTickError msg ''TOKEN_REFRESH_ERROR'' (Some 401) d"

section \<open>The cache the token manager stores its tokens in\<close>

text \<open>
  \<^verbatim>\<open>NodeCache\<close> is the node-cache package. An entry wraps a value \<open>wv\<close> with the time
  \<open>wt\<close> (milliseconds) at which it expires, \<open>0\<close> meaning never; \<^verbatim>\<open>set(key, value, ttl)\<close>
  computes \<open>wt\<close> from the current time and the ttl in seconds; \<^verbatim>\<open>get\<close> and \<^verbatim>\<open>has\<close>
  answer for an entry only while \<^verbatim>\<open>data.t !== 0 && data.t < Date.now()\<close> is false.
  The package also deletes an expired entry when it meets one; no operation of the
  package that the token manager calls tells a deleted entry from an expired one, so an
  expired entry simply stays in the map. The current time is a parameter \<open>now\<close>.
\<close>

record wrapped =
  wv :: string
  wt :: int

type_synonym NodeCache = "string \<rightharpoonup> wrapped"

definition cache_wrap :: "string \<Rightarrow> int \<Rightarrow> int \<Rightarrow> wrapped" where
  "cache_wrap val ttl now = \<lparr>wv = val, wt = (if ttl = 0 then 0 else now + ttl * 1000)\<rparr>"

definition cache_check :: "wrapped \<Rightarrow> int \<Rightarrow> bool" where
  "cache_check d now = (\<not> (wt d \<noteq> 0 \<and> wt d < now))"

definition cache_set :: "NodeCache \<Rightarrow> string \<Rightarrow> string \<Rightarrow> int \<Rightarrow> int \<Rightarrow> NodeCache" where
  "cache_set c k val ttl now = c(k \<mapsto> cache_wrap val ttl now)"

definition cache_get :: "NodeCache \<Rightarrow> string \<Rightarrow> int \<Rightarrow> string option" where
  "cache_get c k now =
     (case c k of
        None \<Rightarrow> None
      | Some d \<Rightarrow> if cache_check d now then Some (wv d) else None)"

definition cache_has :: "NodeCache \<Rightarrow> string \<Rightarrow> int \<Rightarrow> bool" where
  "cache_has c k now = (case c k of None \<Rightarrow> False | Some d \<Rightarrow> cache_check d now)"

definition cache_getTtl :: "NodeCache \<Rightarrow> string \<Rightarrow> int \<Rightarrow> int option" where
  "cache_getTtl c k now =
     (case c k of
        None \<Rightarrow> None
      | Some d \<Rightarrow> if cache_check d now then Some (wt d) else None)"

fun cache_del :: "NodeCache \<Rightarrow> string list \<Rightarrow> NodeCache" where
  "cache_del c [] = c"
| "cache_del c (k # ks) = cache_del (c(k := None)) ks"

section \<open>TokenManager\<close>

text \<open>
  The two fields of the class. \<open>refreshPromise\<close> holds the number of the promise
  returned by \<^verbatim>\<open>refreshAccessToken\<close>, \<open>None\<close> for \<^verbatim>\<open>null\<close>. The methods are
  written over the record scheme, so that they also act on the event-loop state below,
  which extends the record.
\<close>

record TokenManager =
  cache :: NodeCache
  refreshPromise :: "nat option"

text \<open>JavaScript truthiness of an optional string and of an optional number.\<close>

fun truthy :: "string option \<Rightarrow> bool" where
  "truthy None = False"
| "truthy (Some s) = (s \<noteq> [])"

fun or_default :: "int option \<Rightarrow> int \<Rightarrow> int" where
  "or_default None d = d"
| "or_default (Some n) d = (if n = 0 then d else n)"

definition setTokens ::
  "TokenResponse \<Rightarrow> int \<Rightarrow> 'a TokenManager_scheme \<Rightarrow> 'a TokenManager_scheme" where
  "setTokens tokens now tm =
     (let expiresIn = or_default (expires_in tokens) 3600;
          ttl = max (expiresIn - 300) 60;
          c1 = cache_set (cache tm) ''access_token'' (access_token tokens) ttl now;
          c2 = (if truthy (refresh_token tokens)
                then cache_set c1 ''refresh_token'' (the (refresh_token tokens))
                       (30 * 24 * 60 * 60) now
                else c1)
      in tm\<lparr>cache := c2\<rparr>)"

definition getAccessToken :: "'a TokenManager_scheme \<Rightarrow> int \<Rightarrow> string option" where
  "getAccessToken tm now = cache_get (cache tm) ''access_token'' now"

definition getRefreshToken :: "'a TokenManager_scheme \<Rightarrow> int \<Rightarrow> string option" where
  "getRefreshToken tm now = cache_get (cache tm) ''refresh_token'' now"

definition isAccessTokenValid :: "'a TokenManager_scheme \<Rightarrow> int \<Rightarrow> bool" where
  "isAccessTokenValid tm now = cache_has (cache tm) ''access_token'' now"

definition clearTokens :: "'a TokenManager_scheme \<Rightarrow> 'a TokenManager_scheme" where
  "clearTokens tm = tm\<lparr>cache := cache_del (cache tm) [''access_token'', ''refresh_token'']\<rparr>"

text \<open>\<^verbatim>\<open>process.env\<close> is a map from variable names to strings.\<close>

definition initializeFromEnv ::
  "(string \<rightharpoonup> string) \<Rightarrow> int \<Rightarrow> 'a TokenManager_scheme \<Rightarrow> 'a TokenManager_scheme" where
  "initializeFromEnv env now tm =
     (let accessToken = env ''TICKTICK_ACCESS_TOKEN'';
          refreshToken = env ''TICKTICK_REFRESH_TOKEN''
      in if truthy accessToken
         then setTokens \<lparr>access_token = the accessToken, token_type = ''Bearer'',
                          expires_in = Some 3600, refresh_token = refreshToken,
                          scope = None\<rparr> now tm
         else tm)"

section \<open>Errors of the HTTP library\<close>

text \<open>
  An \<^verbatim>\<open>AxiosError\<close> carries a message and, when the server answered, the response:
  its status, the \<^verbatim>\<open>message\<close> field of its body when the body has one, the body, and
  the \<^verbatim>\<open>retry-after\<close> header. A \<^verbatim>\<open>retry-after\<close> header that is present is taken to
  be a decimal number of seconds, which \<^verbatim>\<open>parseInt\<close> and the multiplication by 1000
  read as that number (the HTTP-date form of the header is not modelled).
\<close>

record http_response =
  status :: nat
  data_message :: "string option"
  data :: string
  retry_after :: "nat option"

record AxiosError =
  ax_message :: string
  ax_response :: "http_response option"

definition or_else :: "string \<Rightarrow> string \<Rightarrow> string" where
  "or_else s d = (if s = [] then d else s)"

text \<open>The decimal digits of a number, for the message built from the status.\<close>

fun show_nat :: "nat \<Rightarrow> string" where
  "show_nat n =
     (if n < 10 then [char_of (48 + n)]
      else show_nat (n div 10) @ [char_of (48 + n mod 10)])"

definition handleAxiosError :: "AxiosError \<Rightarrow> TickTickError" where
  "handleAxiosError error =
     (case ax_response error of
        None \<Rightarrow>
          TickTickError ''Network error occurred while connecting to TickTick API''
            ''NETWORK_ERROR'' None (OriginalError (ax_message error))
      | Some r \<Rightarrow>
          (let msg = (if truthy (data_message r) then the (data_message r)
                      else ax_message error)
           in if status r = 401 then
                AuthenticationError (or_else msg ''Invalid or expired authentication token'')
                  (Data (data r))
              else if status r = 403 then
                AuthorizationError
                  (or_else msg ''You do not have permission to perform this action'')
                  (Data (data r))
              else if status r = 404 then
                NotFoundError (or_else msg ''The requested resource was not found'')
                  (Data (data r))
              else if status r = 429 then
                RateLimitError (or_else msg ''Rate limit exceeded. Please try again later.'')
                  (retry_after r)
              else if status r = 400 then
                ValidationError (or_else msg ''Invalid request parameters'') (Data (data r))
              else
                ApiClientError (or_else msg (''TickTick API error: '' @ show_nat (status r)))
                  (status r) (Data (data r))))"

section \<open>The event loop around getValidAccessToken\<close>

text \<open>
  \<^verbatim>\<open>getValidAccessToken\<close> is an \<^verbatim>\<open>async\<close> method: an invocation runs until it returns,
  throws, or reaches an \<^verbatim>\<open>await\<close> on a promise, where it is suspended and registered as
  a reaction of that promise. When the promise settles, its reactions become microtasks,
  in the order of their registration, and an \<^verbatim>\<open>await\<close> on a promise that has already
  settled queues its microtask at once. The state of the program is therefore the
  \<open>TokenManager\<close> together with the clock, the promises created by
  \<^verbatim>\<open>refreshAccessToken\<close>, the log of the requests sent to the token endpoint, the
  registered reactions, the microtask queue, and the outcome of every invocation that
  has finished.
\<close>

datatype settled = Pending | Fulfilled TokenResponse | Rejected TickTickError

text \<open>
  The two places where an invocation is suspended: \<open>AwaitShared c p\<close> is invocation \<open>c\<close>
  at \<^verbatim>\<open>await this.refreshPromise\<close> of the branch "refresh already in progress",
  \<open>AwaitOwn c p\<close> is invocation \<open>c\<close> at the \<^verbatim>\<open>await\<close> that follows its own call of
  \<^verbatim>\<open>refreshAccessToken\<close>; \<open>p\<close> is the promise awaited.
\<close>

datatype continuation = AwaitShared nat nat | AwaitOwn nat nat

fun promise_of :: "continuation \<Rightarrow> nat" where
  "promise_of (AwaitShared c p) = p"
| "promise_of (AwaitOwn c p) = p"

fun caller_of :: "continuation \<Rightarrow> nat" where
  "caller_of (AwaitShared c p) = c"
| "caller_of (AwaitOwn c p) = c"

datatype outcome = Returned string | Threw TickTickError

record world = TokenManager +
  clock :: int
  promises :: "settled list"
  requests :: "(string \<times> string \<times> string) list"
  reactions :: "continuation list"
  microtasks :: "continuation list"
  invocations :: nat
  outcomes :: "nat \<rightharpoonup> outcome"

definition promise_state :: "world \<Rightarrow> nat \<Rightarrow> settled option" where
  "promise_state w p = (if p < length (promises w) then Some (promises w ! p) else None)"

definition await :: "continuation \<Rightarrow> world \<Rightarrow> world" where
  "await k w =
     (if promise_state w (promise_of k) = Some Pending
      then w\<lparr>reactions := reactions w @ [k]\<rparr>
      else w\<lparr>microtasks := microtasks w @ [k]\<rparr>)"

definition finish :: "nat \<Rightarrow> outcome \<Rightarrow> world \<Rightarrow> world" where
  "finish c r w = w\<lparr>outcomes := (outcomes w)(c \<mapsto> r)\<rparr>"

text \<open>
  \<^verbatim>\<open>refreshAccessToken\<close> sends one request to the token endpoint and returns a new,
  pending promise. The promise settles later (\<open>settle\<close> below) with what the body of
  the function makes of the answer.
\<close>

definition refreshAccessToken :: "string \<Rightarrow> string \<Rightarrow> string \<Rightarrow> world \<Rightarrow> nat \<times> world" where
  "refreshAccessToken clientId clientSecret refreshToken w =
     (length (promises w),
      w\<lparr>promises := promises w @ [Pending],
        requests := requests w @ [(clientId, clientSecret, refreshToken)]\<rparr>)"

datatype answer = ResponseData TokenResponse | AxiosFailure AxiosError | OtherFailure string

fun refresh_settles :: "answer \<Rightarrow> settled" where
  "refresh_settles (ResponseData d) = Fulfilled d"
| "refresh_settles (AxiosFailure e) = Rejected (handleAxiosError e)"
| "refresh_settles (OtherFailure e) =
     Rejected (AuthenticationError ''Failed to refresh access token'' (Foreign e))"

text \<open>
  The synchronous part of an invocation \<open>c\<close> of \<^verbatim>\<open>getValidAccessToken\<close>, up to its
  first \<^verbatim>\<open>await\<close> or its end.
\<close>

definition getValidAccessToken :: "nat \<Rightarrow> string \<Rightarrow> string \<Rightarrow> world \<Rightarrow> world" where
  "getValidAccessToken c clientId clientSecret w =
     (let accessToken = getAccessToken w (clock w)
      in if truthy accessToken then finish c (Returned (the accessToken)) w
         else case refreshPromise w of
           Some p \<Rightarrow> await (AwaitShared c p) w
         | None \<Rightarrow>
             (let refreshToken = getRefreshToken w (clock w)
              in if \<not> truthy refreshToken then
                   finish c (Threw (TokenRefreshError
                     ''No refresh token available. Please re-authenticate with TickTick.''
                     NoDetails)) w
                 else
                   (let (p, w1) = refreshAccessToken clientId clientSecret
                                    (the refreshToken) w;
                        w2 = w1\<lparr>refreshPromise := Some p\<rparr>
                    in await (AwaitOwn c p) w2)))"

text \<open>
  The rest of an invocation, run as a microtask once the awaited promise has settled.
  It is not enabled (\<open>None\<close>) while the promise is pending.
\<close>

fun resume :: "continuation \<Rightarrow> world \<Rightarrow> world option" where
  "resume (AwaitShared c p) w =
     (case promise_state w p of
        Some (Fulfilled tokens) \<Rightarrow> Some (finish c (Returned (access_token tokens)) w)
      | Some (Rejected error) \<Rightarrow>
          Some (finish c (Threw error) (w\<lparr>refreshPromise := None\<rparr>))
      | _ \<Rightarrow> None)"
| "resume (AwaitOwn c p) w =
     (case promise_state w p of
        Some (Fulfilled tokens) \<Rightarrow>
          Some (finish c (Returned (access_token tokens))
                  ((setTokens tokens (clock w) w)\<lparr>refreshPromise := None\<rparr>))
      | Some (Rejected error) \<Rightarrow>
          Some (finish c (Threw (TokenRefreshError
                  ''Failed to refresh access token. Please re-authenticate with TickTick.''
                  (Cause error))) (w\<lparr>refreshPromise := None\<rparr>))
      | _ \<Rightarrow> None)"

text \<open>
  The token endpoint answers the request behind promise \<open>p\<close>: the promise settles and
  its reactions are queued as microtasks in the order of their registration.
\<close>

definition settle :: "nat \<Rightarrow> answer \<Rightarrow> world \<Rightarrow> world" where
  "settle p a w =
     w\<lparr>promises := (promises w)[p := refresh_settles a],
       microtasks := microtasks w @ filter (\<lambda>k. promise_of k = p) (reactions w),
       reactions := filter (\<lambda>k. promise_of k \<noteq> p) (reactions w)\<rparr>"

text \<open>
  What happens in the program. A task of the event loop is one of: an invocation of
  \<^verbatim>\<open>getValidAccessToken\<close> (\<open>Call\<close>; invocations are numbered in the order they are
  made), the answer of the token endpoint to a pending refresh (\<open>Settle\<close>), the passing
  of time (\<open>Tick\<close>), and the other callers of the token manager: the OAuth callback of
  the HTTP server storing freshly exchanged tokens (\<open>SetTokens\<close>), \<open>ClearTokens\<close>, and
  the start of the process (\<open>InitializeFromEnv\<close>). \<open>Microtask\<close> runs the first queued
  continuation. The microtask queue is emptied before the next task starts, as the
  JavaScript event loop does: the tasks are enabled only when the queue is empty.
  (The only caller of \<^verbatim>\<open>getValidAccessToken\<close> is the request interceptor of the API
  client, which runs after a timer of the client's request queue or of its retry has
  fired, while a refresh settles when the answer of the token endpoint arrives: these
  are different tasks.)
\<close>

datatype event =
    Call string string
  | Settle nat answer
  | Microtask
  | Tick int
  | SetTokens TokenResponse
  | ClearTokens
  | InitializeFromEnv "string \<rightharpoonup> string"

fun step :: "event \<Rightarrow> world \<Rightarrow> world option" where
  "step Microtask w =
     (case microtasks w of
        [] \<Rightarrow> None
      | k # ks \<Rightarrow> resume k (w\<lparr>microtasks := ks\<rparr>))"
| "step (Call clientId clientSecret) w =
     (if microtasks w = []
      then Some (getValidAccessToken (invocations w) clientId clientSecret
                   (w\<lparr>invocations := Suc (invocations w)\<rparr>))
      else None)"
| "step (Settle p a) w =
     (if microtasks w = [] \<and> promise_state w p = Some Pending
      then Some (settle p a w) else None)"
| "step (Tick d) w =
     (if microtasks w = [] \<and> 0 \<le> d then Some (w\<lparr>clock := clock w + d\<rparr>) else None)"
| "step (SetTokens tokens) w =
     (if microtasks w = [] then Some (setTokens tokens (clock w) w) else None)"
| "step ClearTokens w =
     (if microtasks w = [] then Some (clearTokens w) else None)"
| "step (InitializeFromEnv env) w =
     (if microtasks w = [] then Some (initializeFromEnv env (clock w) w) else None)"

fun run :: "event list \<Rightarrow> world \<Rightarrow> world option" where
  "run [] w = Some w"
| "run (e # es) w = (case step e w of None \<Rightarrow> None | Some w' \<Rightarrow> run es w')"

text \<open>The state of a process that starts at time \<open>t0\<close>: \<^verbatim>\<open>new TokenManager()\<close>.\<close>

definition initial :: "int \<Rightarrow> world" where
  "initial t0 =
     \<lparr>cache = Map.empty, refreshPromise = None, clock = t0, promises = [],
      requests = [], reactions = [], microtasks = [], invocations = 0,
      outcomes = Map.empty\<rparr>"

inductive reachable :: "world \<Rightarrow> bool" where
  reachable_initial: "reachable (initial t0)"
| reachable_step: "reachable w \<Longrightarrow> step e w = Some w' \<Longrightarrow> reachable w'"

text \<open>The refresh operations in flight: the promises that have not settled.\<close>

definition in_flight :: "world \<Rightarrow> nat list" where
  "in_flight w = filter (\<lambda>p. promises w ! p = Pending) [0 ..< length (promises w)]"

section \<open>The API client: answering HTTP 429\<close>

text \<open>
  \<^verbatim>\<open>TickTickApiClient\<close> installs a response interceptor on its axios instance. A
  response with a status in the 2xx range is passed on; any other outcome reaches the
  error handler as an \<^verbatim>\<open>AxiosError\<close>. On status 429 the handler waits
  \<^verbatim>\<open>retryAfter * 1000\<close> milliseconds, \<^verbatim>\<open>retryAfter\<close> being the \<^verbatim>\<open>retry-after\<close> header
  or 60, and returns \<^verbatim>\<open>this.client.request(error.config)\<close>: the same request, sent
  through the same instance and so through the same interceptor. Every other error is
  thrown as \<^verbatim>\<open>handleAxiosError(error)\<close>. The request interceptor, which asks the
  token manager for the token of each dispatch, is the subject of the sections above
  and is left out here.

  The server is a script: the list of what the transport delivers for the successive
  dispatches of one request. \<open>request\<close> consumes the script and collects the delays
  it has waited; \<open>Outstanding\<close> is a request whose script has run out, that is, one
  that has neither returned nor thrown so far.
\<close>

datatype transport = Fulfil http_response | Reject AxiosError

datatype request_result =
    Resolved http_response "nat list"
  | Failed TickTickError "nat list"
  | Outstanding "nat list"

definition retryAfter :: "http_response \<Rightarrow> nat" where
  "retryAfter r = (case retry_after r of None \<Rightarrow> 60 | Some n \<Rightarrow> n)"

fun request :: "transport list \<Rightarrow> nat list \<Rightarrow> request_result" where
  "request [] waits = Outstanding waits"
| "request (Fulfil response # rest) waits = Resolved response waits"
| "request (Reject error # rest) waits =
     (case ax_response error of
        Some r \<Rightarrow>
          if status r = 429 then request rest (waits @ [retryAfter r * 1000])
          else Failed (handleAxiosError error) waits
      | None \<Rightarrow> Failed (handleAxiosError error) waits)"

text \<open>
  An error that carries a 429 response, and the delay the handler waits on it.
\<close>

definition rate_limited :: "AxiosError \<Rightarrow> bool" where
  "rate_limited error = (case ax_response error of None \<Rightarrow> False | Some r \<Rightarrow> status r = 429)"

definition retry_delay :: "AxiosError \<Rightarrow> nat" where
  "retry_delay error =
     (case ax_response error of None \<Rightarrow> 0 | Some r \<Rightarrow> retryAfter r * 1000)"

text \<open>The number of dispatches a request has made when it ends or the script runs out.\<close>

fun dispatches :: "transport list \<Rightarrow> nat" where
  "dispatches [] = 0"
| "dispatches (Fulfil response # rest) = 1"
| "dispatches (Reject error # rest) =
     (case ax_response error of
        Some r \<Rightarrow> if status r = 429 then Suc (dispatches rest) else 1
      | None \<Rightarrow> 1)"

section \<open>Auxiliary definitions\<close>

text \<open>
  The invariant of the event loop. Reactions wait on pending promises and microtasks
  belong to settled ones; a pending promise is the one held in \<open>refreshPromise\<close>;
  while microtasks are queued no promise is pending; and the promise held in
  \<open>refreshPromise\<close> is either pending, with the invocation that created it among the
  reactions, or settled, with that invocation still among the microtasks.
\<close>

definition inv :: "world \<Rightarrow> bool" where
  "inv w \<longleftrightarrow>
     (\<forall>k \<in> set (reactions w). promise_state w (promise_of k) = Some Pending) \<and>
     (\<forall>k \<in> set (microtasks w). \<exists>s. promise_state w (promise_of k) = Some s \<and> s \<noteq> Pending) \<and>
     (\<forall>p. promise_state w p = Some Pending \<longrightarrow> refreshPromise w = Some p) \<and>
     (microtasks w \<noteq> [] \<longrightarrow> (\<forall>p. promise_state w p \<noteq> Some Pending)) \<and>
     (\<forall>p. refreshPromise w = Some p \<longrightarrow>
          (promise_state w p = Some Pending \<and> (\<exists>c. AwaitOwn c p \<in> set (reactions w)))
          \<or> (\<exists>c. AwaitOwn c p \<in> set (microtasks w)))"

text \<open>Observations on the result of a run: what invocation \<open>c\<close> returned or threw.\<close>

definition outcome_of :: "world option \<Rightarrow> nat \<Rightarrow> outcome option" where
  "outcome_of r c = (case r of None \<Rightarrow> None | Some w \<Rightarrow> outcomes w c)"

fun thrown_code :: "outcome option \<Rightarrow> string option" where
  "thrown_code (Some (Threw e)) = Some (code e)"
| "thrown_code _ = None"

definition tokens_of :: "world option \<Rightarrow> string option \<times> string option" where
  "tokens_of r =
     (case r of None \<Rightarrow> (None, None)
      | Some w \<Rightarrow> (getAccessToken w (clock w), getRefreshToken w (clock w)))"

definition requests_of :: "world option \<Rightarrow> (string \<times> string \<times> string) list" where
  "requests_of r = (case r of None \<Rightarrow> [] | Some w \<Rightarrow> requests w)"

text \<open>Concrete values for the examples.\<close>

definition example_tokens :: "string \<Rightarrow> int option \<Rightarrow> string option \<Rightarrow> TokenResponse" where
  "example_tokens a e r =
     \<lparr>access_token = a, token_type = ''Bearer'', expires_in = e, refresh_token = r,
      scope = None\<rparr>"

definition empty_manager :: TokenManager where
  "empty_manager = \<lparr>cache = Map.empty, refreshPromise = None\<rparr>"

definition network_down :: AxiosError where
  "network_down = \<lparr>ax_message = ''connect ETIMEDOUT'', ax_response = None\<rparr>"

definition too_many :: "nat option \<Rightarrow> AxiosError" where
  "too_many h =
     \<lparr>ax_message = ''Request failed with status code 429'',
      ax_response = Some \<lparr>status = 429, data_message = None, data = [], retry_after = h\<rparr>\<rparr>"

definition ok_response :: http_response where
  "ok_response = \<lparr>status = 200, data_message = None, data = ''[]'', retry_after = None\<rparr>"

text \<open>
  A process whose access token has expired and whose refresh token \<open>R1\<close> is still
  stored: tokens stored at time 0 with \<^verbatim>\<open>expires_in = 3600\<close>, then 3301 seconds pass.
\<close>

definition expired_world :: world where
  "expired_world =
     \<lparr>cache = [''access_token'' \<mapsto> \<lparr>wv = ''A1'', wt = 3300000\<rparr>,
               ''refresh_token'' \<mapsto> \<lparr>wv = ''R1'', wt = 2592000000\<rparr>],
      refreshPromise = None, clock = 3301000, promises = [], requests = [],
      reactions = [], microtasks = [], invocations = 0, outcomes = Map.empty\<rparr>"

definition fresh_world :: world where
  "fresh_world = expired_world\<lparr>clock := 0\<rparr>"

text \<open>
  What a continuation throws when the promise it awaits is rejected with \<open>e\<close>, and the
  state in which \<open>Suc m\<close> invocations made in a row have converged on one refresh.
\<close>

fun thrown_by :: "continuation \<Rightarrow> TickTickError \<Rightarrow> TickTickError" where
  "thrown_by (AwaitOwn c p) e =
     TokenRefreshError ''Failed to refresh access token. Please re-authenticate with TickTick.'' (Cause e)"
| "thrown_by (AwaitShared c p) e = e"

definition converged :: "world \<Rightarrow> string \<Rightarrow> string \<Rightarrow> nat \<Rightarrow> world" where
  "converged w a b m =
     w\<lparr>invocations := Suc (invocations w) + m,
       promises := promises w @ [Pending],
       requests := requests w @ [(a, b, the (getRefreshToken w (clock w)))],
       refreshPromise := Some (length (promises w)),
       reactions := AwaitOwn (invocations w) (length (promises w)) #
                    map (\<lambda>c. AwaitShared c (length (promises w)))
                      [Suc (invocations w) ..< Suc (invocations w) + m]\<rparr>"

text \<open>A refresh token that is stored is not the empty string.\<close>

definition refresh_entry_ok :: "NodeCache \<Rightarrow> bool" where
  "refresh_entry_ok c = (case c ''refresh_token'' of None \<Rightarrow> True | Some d \<Rightarrow> wv d \<noteq> [])"

text \<open>
  The events by which further invocations join a pending refresh: calls, and time
  passing between them. \<open>ncalls\<close> counts the calls of a list of events and
  \<open>elapsed\<close> adds up the time that passes.
\<close>

fun joins :: "event \<Rightarrow> bool" where
  "joins (Call a b) = True"
| "joins (Tick d) = (0 \<le> d)"
| "joins _ = False"

fun ncalls :: "event list \<Rightarrow> nat" where
  "ncalls [] = 0"
| "ncalls (Call a b # es) = Suc (ncalls es)"
| "ncalls (e # es) = ncalls es"

fun elapsed :: "event list \<Rightarrow> int" where
  "elapsed [] = 0"
| "elapsed (Tick d # es) = d + elapsed es"
| "elapsed (e # es) = elapsed es"

section \<open>Properties of the cache and of setTokens\<close>

lemma cache_set_other: "k' \<noteq> k \<Longrightarrow> cache_set c k val ttl now k' = c k'"
  by (simp add: cache_set_def)

lemma cache_set_same: "cache_set c k val ttl now k = Some (cache_wrap val ttl now)"
  by (simp add: cache_set_def)

lemma setTokens_access_entry:
  "cache (setTokens tokens now tm) ''access_token'' =
     Some (cache_wrap (access_token tokens) (max (or_default (expires_in tokens) 3600 - 300) 60) now)"
  by (simp add: setTokens_def Let_def cache_set_def)

lemma wrapped_lifetime:
  "0 \<le> now \<Longrightarrow> 0 < ttl \<Longrightarrow> c k = Some (cache_wrap val ttl now) \<Longrightarrow>
   cache_get c k t = (if t \<le> now + ttl * 1000 then Some val else None)"
  by (auto simp: cache_get_def cache_wrap_def cache_check_def)

section \<open>The invariant of the event loop\<close>

lemma inv_initial: "inv (initial t0)"
  by (simp add: inv_def initial_def promise_state_def)

lemma promise_state_cache_upd [simp]: "promise_state (w\<lparr>cache := c\<rparr>) p = promise_state w p"
  by (simp add: promise_state_def)
lemma promise_state_clock_upd [simp]: "promise_state (w\<lparr>clock := c\<rparr>) p = promise_state w p"
  by (simp add: promise_state_def)
lemma promise_state_handle_upd [simp]: "promise_state (w\<lparr>refreshPromise := c\<rparr>) p = promise_state w p"
  by (simp add: promise_state_def)
lemma promise_state_outcomes_upd [simp]: "promise_state (w\<lparr>outcomes := c\<rparr>) p = promise_state w p"
  by (simp add: promise_state_def)
lemma promise_state_microtasks_upd [simp]: "promise_state (w\<lparr>microtasks := c\<rparr>) p = promise_state w p"
  by (simp add: promise_state_def)
lemma promise_state_reactions_upd [simp]: "promise_state (w\<lparr>reactions := c\<rparr>) p = promise_state w p"
  by (simp add: promise_state_def)
lemma promise_state_invocations_upd [simp]: "promise_state (w\<lparr>invocations := c\<rparr>) p = promise_state w p"
  by (simp add: promise_state_def)
lemma promise_state_requests_upd [simp]: "promise_state (w\<lparr>requests := c\<rparr>) p = promise_state w p"
  by (simp add: promise_state_def)

lemma inv_cache_upd: "inv w \<Longrightarrow> inv (w\<lparr>cache := c\<rparr>)"
  by (simp add: inv_def)
lemma inv_clock_upd: "inv w \<Longrightarrow> inv (w\<lparr>clock := c\<rparr>)"
  by (simp add: inv_def)
lemma inv_invocations_upd: "inv w \<Longrightarrow> inv (w\<lparr>invocations := c\<rparr>)"
  by (simp add: inv_def)
lemma inv_outcomes_upd: "inv w \<Longrightarrow> inv (w\<lparr>outcomes := c\<rparr>)"
  by (simp add: inv_def)

lemma inv_setTokens: "inv w \<Longrightarrow> inv (setTokens tokens now w)"
  by (simp add: setTokens_def Let_def inv_cache_upd)

lemma inv_clearTokens: "inv w \<Longrightarrow> inv (clearTokens w)"
  by (simp add: clearTokens_def inv_cache_upd)

lemma inv_initializeFromEnv: "inv w \<Longrightarrow> inv (initializeFromEnv env now w)"
  by (simp add: initializeFromEnv_def Let_def inv_setTokens)

lemma inv_finish: "inv w \<Longrightarrow> inv (finish c r w)"
  by (simp add: finish_def inv_outcomes_upd)

lemma quiescent_handle_pending:
  "inv w \<Longrightarrow> microtasks w = [] \<Longrightarrow> refreshPromise w = Some p \<Longrightarrow> promise_state w p = Some Pending"
  by (auto simp: inv_def)

lemma promise_state_append_old:
  "promise_state (w\<lparr>promises := promises w @ [s]\<rparr>) p =
     (if p = length (promises w) then Some s else promise_state w p)"
  by (auto simp: promise_state_def nth_append)

lemma no_handle_no_pending:
  "inv w \<Longrightarrow> refreshPromise w = None \<Longrightarrow> promise_state w p \<noteq> Some Pending"
  by (auto simp: inv_def)

lemma no_handle_no_reactions:
  "inv w \<Longrightarrow> refreshPromise w = None \<Longrightarrow> reactions w = []"
proof (rule ccontr)
  assume i: "inv w" and h: "refreshPromise w = None" and ne: "reactions w \<noteq> []"
  then obtain k where "k \<in> set (reactions w)" by (cases "reactions w") auto
  with i have "promise_state w (promise_of k) = Some Pending" by (simp add: inv_def)
  with no_handle_no_pending [OF i h] show False by blast
qed

lemma inv_start:
  assumes "inv w" "microtasks w = []" "refreshPromise w = None"
  shows "inv (w\<lparr>promises := promises w @ [Pending], requests := rq,
               refreshPromise := Some (length (promises w)),
               reactions := reactions w @ [AwaitOwn c (length (promises w))]\<rparr>)"
proof -
  have r: "reactions w = []" using assms no_handle_no_reactions by blast
  have np: "\<And>p. promise_state w p \<noteq> Some Pending" using assms no_handle_no_pending by blast
  have ps: "\<And>p. promise_state (w\<lparr>promises := promises w @ [Pending], requests := rq,
               refreshPromise := Some (length (promises w)),
               reactions := reactions w @ [AwaitOwn c (length (promises w))]\<rparr>) p
             = (if p = length (promises w) then Some Pending else promise_state w p)"
    by (auto simp: promise_state_def nth_append)
  show ?thesis
    unfolding inv_def ps using assms(2) r np by auto
qed

lemma gvat_cached:
  "truthy (getAccessToken w (clock w)) \<Longrightarrow>
   getValidAccessToken c clientId clientSecret w =
     finish c (Returned (the (getAccessToken w (clock w)))) w"
  by (simp add: getValidAccessToken_def Let_def)

lemma gvat_wait:
  "\<not> truthy (getAccessToken w (clock w)) \<Longrightarrow> refreshPromise w = Some p \<Longrightarrow>
   getValidAccessToken c clientId clientSecret w = await (AwaitShared c p) w"
  by (simp add: getValidAccessToken_def Let_def)

lemma gvat_unavailable:
  "\<not> truthy (getAccessToken w (clock w)) \<Longrightarrow> refreshPromise w = None \<Longrightarrow>
   \<not> truthy (getRefreshToken w (clock w)) \<Longrightarrow>
   getValidAccessToken c clientId clientSecret w =
     finish c (Threw (TokenRefreshError
       ''No refresh token available. Please re-authenticate with TickTick.'' NoDetails)) w"
  by (simp add: getValidAccessToken_def Let_def)

lemma gvat_start:
  "\<not> truthy (getAccessToken w (clock w)) \<Longrightarrow> refreshPromise w = None \<Longrightarrow>
   truthy (getRefreshToken w (clock w)) \<Longrightarrow>
   getValidAccessToken c clientId clientSecret w =
     w\<lparr>promises := promises w @ [Pending],
       requests := requests w @ [(clientId, clientSecret, the (getRefreshToken w (clock w)))],
       refreshPromise := Some (length (promises w)),
       reactions := reactions w @ [AwaitOwn c (length (promises w))]\<rparr>"
  by (simp add: getValidAccessToken_def Let_def await_def refreshAccessToken_def
        promise_state_def)

lemma inv_add_waiter:
  assumes "inv w" "promise_state w p = Some Pending"
  shows "inv (w\<lparr>reactions := reactions w @ [AwaitShared c p]\<rparr>)"
  unfolding inv_def
proof (intro conjI)
  show "\<forall>k\<in>set (reactions (w\<lparr>reactions := reactions w @ [AwaitShared c p]\<rparr>)).
          promise_state (w\<lparr>reactions := reactions w @ [AwaitShared c p]\<rparr>) (promise_of k) = Some Pending"
    using assms by (auto simp: inv_def)
  show "\<forall>k\<in>set (microtasks (w\<lparr>reactions := reactions w @ [AwaitShared c p]\<rparr>)).
          \<exists>s. promise_state (w\<lparr>reactions := reactions w @ [AwaitShared c p]\<rparr>) (promise_of k) = Some s \<and> s \<noteq> Pending"
    using assms(1) by (simp add: inv_def)
  show "\<forall>pa. promise_state (w\<lparr>reactions := reactions w @ [AwaitShared c p]\<rparr>) pa = Some Pending \<longrightarrow>
          refreshPromise (w\<lparr>reactions := reactions w @ [AwaitShared c p]\<rparr>) = Some pa"
    using assms(1) by (simp add: inv_def)
  show "microtasks (w\<lparr>reactions := reactions w @ [AwaitShared c p]\<rparr>) \<noteq> [] \<longrightarrow>
          (\<forall>pa. promise_state (w\<lparr>reactions := reactions w @ [AwaitShared c p]\<rparr>) pa \<noteq> Some Pending)"
    using assms(1) by (simp add: inv_def)
  show "\<forall>pa. refreshPromise (w\<lparr>reactions := reactions w @ [AwaitShared c p]\<rparr>) = Some pa \<longrightarrow>
          promise_state (w\<lparr>reactions := reactions w @ [AwaitShared c p]\<rparr>) pa = Some Pending \<and>
          (\<exists>ca. AwaitOwn ca pa \<in> set (reactions (w\<lparr>reactions := reactions w @ [AwaitShared c p]\<rparr>))) \<or>
          (\<exists>ca. AwaitOwn ca pa \<in> set (microtasks (w\<lparr>reactions := reactions w @ [AwaitShared c p]\<rparr>)))"
    using assms(1) unfolding inv_def by simp
qed

lemma inv_getValidAccessToken:
  assumes "inv w" "microtasks w = []"
  shows "inv (getValidAccessToken c clientId clientSecret w)"
proof (cases "truthy (getAccessToken w (clock w))")
  case True
  then show ?thesis using assms(1) by (simp add: gvat_cached inv_finish)
next
  case False
  show ?thesis
  proof (cases "refreshPromise w")
    case (Some p)
    have pend: "promise_state w p = Some Pending"
      using quiescent_handle_pending [OF assms Some] .
    have "getValidAccessToken c clientId clientSecret w = w\<lparr>reactions := reactions w @ [AwaitShared c p]\<rparr>"
      by (simp add: gvat_wait [OF False Some] await_def pend)
    then show ?thesis using inv_add_waiter [OF assms(1) pend] by simp
  next
    case None
    show ?thesis
    proof (cases "truthy (getRefreshToken w (clock w))")
      case f: False
      show ?thesis using assms(1) by (simp add: gvat_unavailable [OF False None f] inv_finish)
    next
      case t: True
      show ?thesis using inv_start [OF assms None] by (simp add: gvat_start [OF False None t])
    qed
  qed
qed

lemma refresh_settles_not_pending [simp]: "refresh_settles a \<noteq> Pending"
  by (cases a) simp_all

lemma promise_state_settle:
  "promise_state w p = Some Pending \<Longrightarrow>
   promise_state (settle p a w) q = (if q = p then Some (refresh_settles a) else promise_state w q)"
  by (auto simp: promise_state_def settle_def split: if_splits)

lemma settle_fields [simp]:
  "refreshPromise (settle p a w) = refreshPromise w"
  "cache (settle p a w) = cache w"
  "clock (settle p a w) = clock w"
  "requests (settle p a w) = requests w"
  "outcomes (settle p a w) = outcomes w"
  "invocations (settle p a w) = invocations w"
  "microtasks (settle p a w) = microtasks w @ filter (\<lambda>k. promise_of k = p) (reactions w)"
  "reactions (settle p a w) = filter (\<lambda>k. promise_of k \<noteq> p) (reactions w)"
  by (simp_all add: settle_def)

lemma pending_is_handle:
  "inv w \<Longrightarrow> promise_state w p = Some Pending \<Longrightarrow> refreshPromise w = Some p"
  by (simp add: inv_def)

lemma only_handle_pending:
  assumes "inv w" "promise_state w p = Some Pending" "promise_state w q = Some Pending"
  shows "q = p"
  using pending_is_handle [OF assms(1,2)] pending_is_handle [OF assms(1,3)] by simp

lemma reactions_on_pending:
  "inv w \<Longrightarrow> k \<in> set (reactions w) \<Longrightarrow> promise_state w (promise_of k) = Some Pending"
  by (simp add: inv_def)

lemma pending_has_initiator:
  "inv w \<Longrightarrow> microtasks w = [] \<Longrightarrow> promise_state w p = Some Pending \<Longrightarrow>
   refreshPromise w = Some p \<and> (\<exists>c. AwaitOwn c p \<in> set (reactions w))"
proof -
  assume i: "inv w" and q: "microtasks w = []" and pend: "promise_state w p = Some Pending"
  have h: "refreshPromise w = Some p" using pending_is_handle [OF i pend] .
  from i have "\<forall>p. refreshPromise w = Some p \<longrightarrow>
          (promise_state w p = Some Pending \<and> (\<exists>c. AwaitOwn c p \<in> set (reactions w)))
          \<or> (\<exists>c. AwaitOwn c p \<in> set (microtasks w))"
    unfolding inv_def by blast
  with h q show ?thesis by simp
qed

lemma inv_settle:
  assumes i: "inv w" and q: "microtasks w = []" and pend: "promise_state w p = Some Pending"
  shows "inv (settle p a w)"
proof -
  note ps = promise_state_settle [OF pend]
  have others: "\<And>q. q \<noteq> p \<Longrightarrow> promise_state w q \<noteq> Some Pending"
    using only_handle_pending [OF i pend] by blast
  have all_p: "\<And>k. k \<in> set (reactions w) \<Longrightarrow> promise_of k = p"
    using reactions_on_pending [OF i] others by blast
  from pending_has_initiator [OF i q pend]
  obtain c where h: "refreshPromise w = Some p" and own: "AwaitOwn c p \<in> set (reactions w)"
    by blast
  show ?thesis
    unfolding inv_def
  proof (intro conjI)
    show "\<forall>k\<in>set (reactions (settle p a w)).
            promise_state (settle p a w) (promise_of k) = Some Pending"
      using all_p by simp
    show "\<forall>k\<in>set (microtasks (settle p a w)).
            \<exists>s. promise_state (settle p a w) (promise_of k) = Some s \<and> s \<noteq> Pending"
      using q by (simp add: ps)
    show "\<forall>pa. promise_state (settle p a w) pa = Some Pending \<longrightarrow>
            refreshPromise (settle p a w) = Some pa"
      using others by (simp add: ps)
    show "microtasks (settle p a w) \<noteq> [] \<longrightarrow>
            (\<forall>pa. promise_state (settle p a w) pa \<noteq> Some Pending)"
      using others by (simp add: ps)
    show "\<forall>pa. refreshPromise (settle p a w) = Some pa \<longrightarrow>
            promise_state (settle p a w) pa = Some Pending \<and>
            (\<exists>c. AwaitOwn c pa \<in> set (reactions (settle p a w))) \<or>
            (\<exists>c. AwaitOwn c pa \<in> set (microtasks (settle p a w)))"
      using h own q by auto
  qed
qed

lemma inv_microtasks_settled:
  "inv w \<Longrightarrow> k \<in> set (microtasks w) \<Longrightarrow>
   \<exists>s. promise_state w (promise_of k) = Some s \<and> s \<noteq> Pending"
  by (simp add: inv_def)

lemma draining_no_pending:
  "inv w \<Longrightarrow> microtasks w \<noteq> [] \<Longrightarrow> promise_state w p \<noteq> Some Pending"
  by (simp add: inv_def)

lemma inv_handle:
  "inv w \<Longrightarrow> refreshPromise w = Some p \<Longrightarrow>
     (promise_state w p = Some Pending \<and> (\<exists>c. AwaitOwn c p \<in> set (reactions w)))
     \<or> (\<exists>c. AwaitOwn c p \<in> set (microtasks w))"
  unfolding inv_def by blast

lemma draining_no_reactions:
  assumes "inv w" "microtasks w \<noteq> []"
  shows "reactions w = []"
proof (cases "reactions w")
  case Nil then show ?thesis .
next
  case (Cons k ks)
  then have "k \<in> set (reactions w)" by simp
  from reactions_on_pending [OF assms(1) this] draining_no_pending [OF assms]
  show ?thesis by blast
qed

text \<open>A state without pending promise and without registered reaction satisfies the
  invariant as soon as its handle, if any, has its initiator among the microtasks.\<close>

lemma inv_drained_intro:
  assumes "\<And>p. promise_state w p \<noteq> Some Pending"
    and "reactions w = []"
    and "\<And>k. k \<in> set (microtasks w) \<Longrightarrow> \<exists>s. promise_state w (promise_of k) = Some s \<and> s \<noteq> Pending"
    and "\<And>p. refreshPromise w = Some p \<Longrightarrow> \<exists>c. AwaitOwn c p \<in> set (microtasks w)"
  shows "inv w"
  unfolding inv_def
proof (intro conjI)
  show "\<forall>k\<in>set (reactions w). promise_state w (promise_of k) = Some Pending"
    using assms(2) by simp
  show "\<forall>k\<in>set (microtasks w). \<exists>s. promise_state w (promise_of k) = Some s \<and> s \<noteq> Pending"
    using assms(3) by blast
  show "\<forall>p. promise_state w p = Some Pending \<longrightarrow> refreshPromise w = Some p"
    using assms(1) by simp
  show "microtasks w \<noteq> [] \<longrightarrow> (\<forall>p. promise_state w p \<noteq> Some Pending)"
    using assms(1) by simp
  show "\<forall>p. refreshPromise w = Some p \<longrightarrow>
          promise_state w p = Some Pending \<and> (\<exists>c. AwaitOwn c p \<in> set (reactions w)) \<or>
          (\<exists>c. AwaitOwn c p \<in> set (microtasks w))"
    using assms(4) by blast
qed

lemma finish_fields [simp]:
  "refreshPromise (finish c r w) = refreshPromise w"
  "cache (finish c r w) = cache w"
  "clock (finish c r w) = clock w"
  "requests (finish c r w) = requests w"
  "promises (finish c r w) = promises w"
  "invocations (finish c r w) = invocations w"
  "microtasks (finish c r w) = microtasks w"
  "reactions (finish c r w) = reactions w"
  "outcomes (finish c r w) = (outcomes w)(c \<mapsto> r)"
  by (simp_all add: finish_def)

lemma promise_state_finish [simp]: "promise_state (finish c r w) p = promise_state w p"
  by (simp add: promise_state_def)

lemma setTokens_fields [simp]:
  "refreshPromise (setTokens tokens now w) = refreshPromise w"
  "clock (setTokens tokens now w) = clock w"
  "requests (setTokens tokens now w) = requests w"
  "promises (setTokens tokens now w) = promises w"
  "invocations (setTokens tokens now w) = invocations w"
  "microtasks (setTokens tokens now w) = microtasks w"
  "reactions (setTokens tokens now w) = reactions w"
  "outcomes (setTokens tokens now w) = outcomes w"
  by (simp_all add: setTokens_def Let_def)

lemma promise_state_setTokens [simp]:
  "promise_state (setTokens tokens now w) p = promise_state w p"
  by (simp add: promise_state_def)

text \<open>What a continuation does to the fields other than the cache and the outcomes.\<close>

lemma resume_frame:
  assumes "resume k w = Some w'"
  shows "promises w' = promises w \<and> requests w' = requests w \<and> reactions w' = reactions w
         \<and> microtasks w' = microtasks w \<and> clock w' = clock w \<and> invocations w' = invocations w
         \<and> (refreshPromise w' = None \<or> refreshPromise w' = refreshPromise w)"
  using assms
  by (cases k) (auto split: option.splits settled.splits)

lemma promise_state_resume:
  "resume k w = Some w' \<Longrightarrow> promise_state w' p = promise_state w p"
  using resume_frame [of k w w'] by (simp add: promise_state_def)

lemma resume_own_clears:
  "resume (AwaitOwn c p) w = Some w' \<Longrightarrow> refreshPromise w' = None"
  by (auto split: option.splits settled.splits)

lemma resume_shared_handle:
  "resume (AwaitShared c p) w = Some w' \<Longrightarrow>
   refreshPromise w' = None \<or> refreshPromise w' = refreshPromise w"
  using resume_frame by blast

lemma inv_resume:
  assumes i: "inv w" and m: "microtasks w = k # ks"
    and r: "resume k (w\<lparr>microtasks := ks\<rparr>) = Some w'"
  shows "inv w'"
proof (rule inv_drained_intro)
  have ne: "microtasks w \<noteq> []" using m by simp
  note fr = resume_frame [OF r]
  note ps = promise_state_resume [OF r]
  show "\<And>p. promise_state w' p \<noteq> Some Pending"
    using draining_no_pending [OF i ne] by (simp add: ps)
  show "reactions w' = []"
    using draining_no_reactions [OF i ne] fr by simp
  show "\<And>k'. k' \<in> set (microtasks w') \<Longrightarrow>
          \<exists>s. promise_state w' (promise_of k') = Some s \<and> s \<noteq> Pending"
  proof -
    fix k' assume "k' \<in> set (microtasks w')"
    then have "k' \<in> set (microtasks w)" using fr m by simp
    from inv_microtasks_settled [OF i this] show
      "\<exists>s. promise_state w' (promise_of k') = Some s \<and> s \<noteq> Pending" by (simp add: ps)
  qed
  show "\<And>p. refreshPromise w' = Some p \<Longrightarrow> \<exists>c. AwaitOwn c p \<in> set (microtasks w')"
  proof -
    fix p assume h': "refreshPromise w' = Some p"
    show "\<exists>c. AwaitOwn c p \<in> set (microtasks w')"
    proof (cases k)
      case (AwaitOwn c q)
      with r resume_own_clears have "refreshPromise w' = None" by blast
      with h' show ?thesis by simp
    next
      case (AwaitShared c q)
      from fr h' have h: "refreshPromise w = Some p" by auto
      from inv_handle [OF i h] draining_no_pending [OF i ne]
      obtain c' where "AwaitOwn c' p \<in> set (microtasks w)" by blast
      with m AwaitShared have "AwaitOwn c' p \<in> set ks" by auto
      with fr show ?thesis by auto
    qed
  qed
qed

lemma inv_step:
  assumes "inv w" "step e w = Some w'"
  shows "inv w'"
proof (cases e)
  case (Call a b)
  with assms(2) have q: "microtasks w = []"
    and w': "w' = getValidAccessToken (invocations w) a b (w\<lparr>invocations := Suc (invocations w)\<rparr>)"
    by (auto split: if_splits)
  have "inv (w\<lparr>invocations := Suc (invocations w)\<rparr>)" using assms(1) by (rule inv_invocations_upd)
  from inv_getValidAccessToken [OF this] q w' show ?thesis by simp
next
  case (Settle p a)
  with assms(2) have "microtasks w = []" "promise_state w p = Some Pending" "w' = settle p a w"
    by (auto split: if_splits)
  with inv_settle [OF assms(1)] show ?thesis by simp
next
  case Microtask
  with assms(2) obtain k ks where "microtasks w = k # ks" "resume k (w\<lparr>microtasks := ks\<rparr>) = Some w'"
    by (auto split: list.splits)
  with inv_resume [OF assms(1)] show ?thesis by blast
next
  case (Tick d)
  with assms(2) have "w' = w\<lparr>clock := clock w + d\<rparr>" by (auto split: if_splits)
  with inv_clock_upd [OF assms(1)] show ?thesis by simp
next
  case (SetTokens tokens)
  with assms(2) have "w' = setTokens tokens (clock w) w" by (auto split: if_splits)
  with inv_setTokens [OF assms(1)] show ?thesis by simp
next
  case ClearTokens
  with assms(2) have "w' = clearTokens w" by (auto split: if_splits)
  with inv_clearTokens [OF assms(1)] show ?thesis by simp
next
  case (InitializeFromEnv env)
  with assms(2) have "w' = initializeFromEnv env (clock w) w" by (auto split: if_splits)
  with inv_initializeFromEnv [OF assms(1)] show ?thesis by simp
qed

lemma reachable_inv: "reachable w \<Longrightarrow> inv w"
  by (induction rule: reachable.induct) (auto intro: inv_initial inv_step)

lemma reachable_run:
  "reachable w \<Longrightarrow> run es w = Some w' \<Longrightarrow> reachable w'"
proof (induction es arbitrary: w)
  case Nil
  then show ?case by simp
next
  case (Cons e es)
  then show ?case by (auto split: option.splits intro: reachable_step)
qed

lemma all_equal_short:
  assumes "distinct xs" "\<And>y. y \<in> set xs \<Longrightarrow> y = x"
  shows "length xs \<le> Suc 0"
proof -
  have "set xs \<subseteq> {x}" using assms(2) by blast
  then have "card (set xs) \<le> card {x}" by (intro card_mono) simp_all
  with distinct_card [OF assms(1)] show ?thesis by simp
qed

lemma in_flight_pending:
  "p \<in> set (in_flight w) \<longleftrightarrow> promise_state w p = Some Pending"
  by (auto simp: in_flight_def promise_state_def)

lemma distinct_in_flight: "distinct (in_flight w)"
  by (simp add: in_flight_def)

lemma inv_in_flight:
  assumes "inv w"
  shows "length (in_flight w) \<le> 1"
proof (cases "in_flight w")
  case Nil
  then show ?thesis by simp
next
  case (Cons p ps)
  then have "p \<in> set (in_flight w)" by simp
  then have pend: "promise_state w p = Some Pending" by (simp add: in_flight_pending)
  have "\<And>q. q \<in> set (in_flight w) \<Longrightarrow> q = p"
    using only_handle_pending [OF assms pend] by (simp add: in_flight_pending)
  from all_equal_short [OF distinct_in_flight this] show ?thesis by simp
qed

section \<open>Invocations converging on one refresh\<close>

lemma step_Call_quiescent:
  "microtasks w = [] \<Longrightarrow>
   step (Call a b) w = Some (getValidAccessToken (invocations w) a b (w\<lparr>invocations := Suc (invocations w)\<rparr>))"
  by simp

lemma getAccessToken_frame [simp]:
  "getAccessToken (w\<lparr>invocations := i\<rparr>) t = getAccessToken w t"
  "getAccessToken (w\<lparr>reactions := r\<rparr>) t = getAccessToken w t"
  "getAccessToken (w\<lparr>microtasks := m\<rparr>) t = getAccessToken w t"
  "getAccessToken (w\<lparr>outcomes := oc\<rparr>) t = getAccessToken w t"
  "getAccessToken (w\<lparr>refreshPromise := h\<rparr>) t = getAccessToken w t"
  "getAccessToken (w\<lparr>promises := ps\<rparr>) t = getAccessToken w t"
  "getAccessToken (w\<lparr>requests := rq\<rparr>) t = getAccessToken w t"
  by (simp_all add: getAccessToken_def)

lemma getRefreshToken_frame [simp]:
  "getRefreshToken (w\<lparr>invocations := i\<rparr>) t = getRefreshToken w t"
  "getRefreshToken (w\<lparr>reactions := r\<rparr>) t = getRefreshToken w t"
  "getRefreshToken (w\<lparr>microtasks := m\<rparr>) t = getRefreshToken w t"
  "getRefreshToken (w\<lparr>outcomes := oc\<rparr>) t = getRefreshToken w t"
  "getRefreshToken (w\<lparr>refreshPromise := h\<rparr>) t = getRefreshToken w t"
  "getRefreshToken (w\<lparr>promises := ps\<rparr>) t = getRefreshToken w t"
  "getRefreshToken (w\<lparr>requests := rq\<rparr>) t = getRefreshToken w t"
  by (simp_all add: getRefreshToken_def)

text \<open>The first of the converging calls starts the refresh.\<close>

lemma first_call:
  assumes "microtasks w = []" "\<not> truthy (getAccessToken w (clock w))"
    "refreshPromise w = None" "truthy (getRefreshToken w (clock w))"
  shows "step (Call a b) w =
     Some (w\<lparr>invocations := Suc (invocations w),
             promises := promises w @ [Pending],
             requests := requests w @ [(a, b, the (getRefreshToken w (clock w)))],
             refreshPromise := Some (length (promises w)),
             reactions := reactions w @ [AwaitOwn (invocations w) (length (promises w))]\<rparr>)"
proof -
  let ?w = "w\<lparr>invocations := Suc (invocations w)\<rparr>"
  have 1: "\<not> truthy (getAccessToken ?w (clock ?w))" using assms(2) by simp
  have 2: "refreshPromise ?w = None" using assms(3) by simp
  have 3: "truthy (getRefreshToken ?w (clock ?w))" using assms(4) by simp
  show ?thesis
    unfolding step_Call_quiescent [OF assms(1)] gvat_start [OF 1 2 3] by simp
qed

text \<open>Every call made while the refresh is pending joins it.\<close>

lemma later_call:
  assumes "microtasks w = []" "\<not> truthy (getAccessToken w (clock w))"
    "refreshPromise w = Some p" "promise_state w p = Some Pending"
  shows "step (Call a b) w =
     Some (w\<lparr>invocations := Suc (invocations w),
             reactions := reactions w @ [AwaitShared (invocations w) p]\<rparr>)"
proof -
  let ?w = "w\<lparr>invocations := Suc (invocations w)\<rparr>"
  have 1: "\<not> truthy (getAccessToken ?w (clock ?w))" using assms(2) by simp
  have 2: "refreshPromise ?w = Some p" using assms(3) by simp
  have 3: "promise_state ?w (promise_of (AwaitShared (invocations w) p)) = Some Pending"
    using assms(4) by simp
  show ?thesis
    unfolding step_Call_quiescent [OF assms(1)] gvat_wait [OF 1 2] await_def 3 by simp
qed

lemma later_calls:
  assumes "microtasks w = []" "\<not> truthy (getAccessToken w (clock w))"
    "refreshPromise w = Some p" "promise_state w p = Some Pending"
  shows "run (replicate m (Call a b)) w =
     Some (w\<lparr>invocations := invocations w + m,
             reactions := reactions w @ map (\<lambda>c. AwaitShared c p) [invocations w ..< invocations w + m]\<rparr>)"
  using assms
proof (induction m arbitrary: w)
  case 0
  then show ?case by simp
next
  case (Suc m)
  let ?w1 = "w\<lparr>invocations := Suc (invocations w),
             reactions := reactions w @ [AwaitShared (invocations w) p]\<rparr>"
  have s: "step (Call a b) w = Some ?w1" using later_call [OF Suc.prems] .
  have "run (replicate m (Call a b)) ?w1 =
     Some (?w1\<lparr>invocations := invocations ?w1 + m,
             reactions := reactions ?w1 @ map (\<lambda>c. AwaitShared c p) [invocations ?w1 ..< invocations ?w1 + m]\<rparr>)"
    using Suc.prems by (intro Suc.IH) simp_all
  moreover have "[invocations w ..< invocations w + Suc m]
                 = invocations w # [Suc (invocations w) ..< Suc (invocations w) + m]"
    by (simp add: upt_conv_Cons)
  ultimately show ?case
    by (simp add: s del: step.simps upt_Suc)
qed

lemma resume_rejected:
  "promise_state w (promise_of k) = Some (Rejected e) \<Longrightarrow>
   resume k w = Some (finish (caller_of k) (Threw (thrown_by k e)) (w\<lparr>refreshPromise := None\<rparr>))"
  by (cases k) simp_all

lemma step_Microtask:
  "microtasks w = k # ks \<Longrightarrow> step Microtask w = resume k (w\<lparr>microtasks := ks\<rparr>)"
  by simp

lemma run_Cons: "step e w = Some w1 \<Longrightarrow> run (e # es) w = run es w1"
  by simp

lemma run_single: "run [e] w = step e w"
  by (simp split: option.splits)

lemma drain_rejected:
  assumes "\<forall>k \<in> set (microtasks w). promise_state w (promise_of k) = Some (Rejected e)"
    and "i \<le> length (microtasks w)"
  shows "\<exists>wi. run (replicate i Microtask) w = Some wi
          \<and> microtasks wi = drop i (microtasks w)
          \<and> promises wi = promises w \<and> requests wi = requests w \<and> cache wi = cache w
          \<and> clock wi = clock w \<and> reactions wi = reactions w \<and> invocations wi = invocations w
          \<and> refreshPromise wi = (if i = 0 then refreshPromise w else None)
          \<and> (\<forall>c. outcomes wi c =
                (if c \<in> caller_of ` set (take i (microtasks w))
                 then Some (Threw (thrown_by (last (filter (\<lambda>k. caller_of k = c) (take i (microtasks w)))) e))
                 else outcomes w c))"
  using assms
proof (induction i arbitrary: w)
  case 0
  then show ?case by simp
next
  case (Suc i)
  then obtain k ks where m: "microtasks w = k # ks" by (cases "microtasks w") auto
  let ?w1 = "finish (caller_of k) (Threw (thrown_by k e)) (w\<lparr>microtasks := ks, refreshPromise := None\<rparr>)"
  have rej: "promise_state (w\<lparr>microtasks := ks\<rparr>) (promise_of k) = Some (Rejected e)"
    using Suc.prems(1) m by simp
  have s: "step Microtask w = Some ?w1"
    unfolding step_Microtask [OF m] resume_rejected [OF rej] by simp
  have p1: "\<forall>k \<in> set (microtasks ?w1). promise_state ?w1 (promise_of k) = Some (Rejected e)"
    using Suc.prems(1) m by simp
  have p2: "i \<le> length (microtasks ?w1)" using Suc.prems(2) m by simp
  from Suc.IH [OF p1 p2] obtain wi where
    wi: "run (replicate i Microtask) ?w1 = Some wi"
      "microtasks wi = drop i (microtasks ?w1)"
      "promises wi = promises ?w1" "requests wi = requests ?w1" "cache wi = cache ?w1"
      "clock wi = clock ?w1" "reactions wi = reactions ?w1" "invocations wi = invocations ?w1"
      "refreshPromise wi = (if i = 0 then refreshPromise ?w1 else None)"
      "\<forall>c. outcomes wi c =
                (if c \<in> caller_of ` set (take i (microtasks ?w1))
                 then Some (Threw (thrown_by (last (filter (\<lambda>k. caller_of k = c) (take i (microtasks ?w1)))) e))
                 else outcomes ?w1 c)"
    by blast
  have r: "run (replicate (Suc i) Microtask) w = Some wi"
    using wi(1) run_Cons [OF s] by simp
  have oc: "\<forall>c. outcomes wi c =
                (if c \<in> caller_of ` set (take (Suc i) (microtasks w))
                 then Some (Threw (thrown_by (last (filter (\<lambda>k. caller_of k = c) (take (Suc i) (microtasks w)))) e))
                 else outcomes w c)"
  proof
    fix c
    show "outcomes wi c =
                (if c \<in> caller_of ` set (take (Suc i) (microtasks w))
                 then Some (Threw (thrown_by (last (filter (\<lambda>k. caller_of k = c) (take (Suc i) (microtasks w)))) e))
                 else outcomes w c)"
    proof (cases "c \<in> caller_of ` set (take i ks)")
      case True
      then have "filter (\<lambda>k. caller_of k = c) (take i ks) \<noteq> []"
        by (auto simp: filter_empty_conv)
      with True wi(10) m show ?thesis by (simp add: last_append)
    next
      case False
      then have "filter (\<lambda>k. caller_of k = c) (take i ks) = []"
        by (auto simp: filter_empty_conv)
      with False wi(10) m show ?thesis by auto
    qed
  qed
  show ?case
    using r wi(2-9) oc m by (intro exI [of _ wi]) simp
qed

lemma resume_fulfilled_own:
  "promise_state w p = Some (Fulfilled tokens) \<Longrightarrow>
   resume (AwaitOwn c p) w =
     Some (finish c (Returned (access_token tokens))
             ((setTokens tokens (clock w) w)\<lparr>refreshPromise := None\<rparr>))"
  by simp

lemma resume_fulfilled_shared:
  "promise_state w p = Some (Fulfilled tokens) \<Longrightarrow>
   resume (AwaitShared c p) w = Some (finish c (Returned (access_token tokens)) w)"
  by simp

text \<open>The invocations that joined a refresh which succeeded all return its token.\<close>

lemma drain_fulfilled_shared:
  assumes "promise_state w p = Some (Fulfilled tokens)"
    and "microtasks w = map (\<lambda>c. AwaitShared c p) cs"
  shows "\<exists>w'. run (replicate (length cs) Microtask) w = Some w'
          \<and> microtasks w' = []
          \<and> promises w' = promises w \<and> requests w' = requests w \<and> cache w' = cache w
          \<and> clock w' = clock w \<and> reactions w' = reactions w \<and> invocations w' = invocations w
          \<and> refreshPromise w' = refreshPromise w
          \<and> (\<forall>c. outcomes w' c =
                (if c \<in> set cs then Some (Returned (access_token tokens)) else outcomes w c))"
  using assms
proof (induction cs arbitrary: w)
  case Nil
  then show ?case by simp
next
  case (Cons c cs)
  let ?w1 = "finish c (Returned (access_token tokens)) (w\<lparr>microtasks := map (\<lambda>c. AwaitShared c p) cs\<rparr>)"
  have m: "microtasks w = AwaitShared c p # map (\<lambda>c. AwaitShared c p) cs"
    using Cons.prems(2) by simp
  have f: "promise_state (w\<lparr>microtasks := map (\<lambda>c. AwaitShared c p) cs\<rparr>) p = Some (Fulfilled tokens)"
    using Cons.prems(1) by simp
  have s: "step Microtask w = Some ?w1"
    unfolding step_Microtask [OF m] resume_fulfilled_shared [OF f] by simp
  have p1: "promise_state ?w1 p = Some (Fulfilled tokens)" using Cons.prems(1) by simp
  have p2: "microtasks ?w1 = map (\<lambda>c. AwaitShared c p) cs" by simp
  from Cons.IH [OF p1 p2] obtain w' where
    w': "run (replicate (length cs) Microtask) ?w1 = Some w'"
      "microtasks w' = []"
      "promises w' = promises ?w1" "requests w' = requests ?w1" "cache w' = cache ?w1"
      "clock w' = clock ?w1" "reactions w' = reactions ?w1" "invocations w' = invocations ?w1"
      "refreshPromise w' = refreshPromise ?w1"
      "\<forall>c'. outcomes w' c' =
                (if c' \<in> set cs then Some (Returned (access_token tokens)) else outcomes ?w1 c')"
    by blast
  have r: "run (replicate (length (c # cs)) Microtask) w = Some w'"
    using w'(1) run_Cons [OF s] by simp
  show ?case
    using r w'(2-10) by (intro exI [of _ w']) simp
qed

lemma converged_fields [simp]:
  "invocations (converged w a b m) = Suc (invocations w) + m"
  "promises (converged w a b m) = promises w @ [Pending]"
  "requests (converged w a b m) = requests w @ [(a, b, the (getRefreshToken w (clock w)))]"
  "refreshPromise (converged w a b m) = Some (length (promises w))"
  "reactions (converged w a b m) = AwaitOwn (invocations w) (length (promises w)) #
                    map (\<lambda>c. AwaitShared c (length (promises w)))
                      [Suc (invocations w) ..< Suc (invocations w) + m]"
  "microtasks (converged w a b m) = microtasks w"
  "cache (converged w a b m) = cache w"
  "clock (converged w a b m) = clock w"
  "outcomes (converged w a b m) = outcomes w"
  by (simp_all add: converged_def)

lemma promise_state_converged:
  "promise_state (converged w a b m) q =
     (if q = length (promises w) then Some Pending else promise_state w q)"
  by (auto simp: promise_state_def nth_append)

lemma calls_converge:
  assumes i: "inv w" and q: "microtasks w = []"
    and na: "\<not> truthy (getAccessToken w (clock w))"
    and nh: "refreshPromise w = None"
    and r: "truthy (getRefreshToken w (clock w))"
  shows "run (replicate (Suc m) (Call a b)) w = Some (converged w a b m)"
proof -
  let ?p = "length (promises w)"
  let ?w1 = "w\<lparr>invocations := Suc (invocations w),
             promises := promises w @ [Pending],
             requests := requests w @ [(a, b, the (getRefreshToken w (clock w)))],
             refreshPromise := Some ?p,
             reactions := reactions w @ [AwaitOwn (invocations w) ?p]\<rparr>"
  have re: "reactions w = []" using no_handle_no_reactions [OF i nh] .
  have s: "step (Call a b) w = Some ?w1" using first_call [OF q na nh r] .
  have 1: "microtasks ?w1 = []" using q by simp
  have 2: "\<not> truthy (getAccessToken ?w1 (clock ?w1))" using na by simp
  have 3: "refreshPromise ?w1 = Some ?p" by simp
  have 4: "promise_state ?w1 ?p = Some Pending" by (simp add: promise_state_def)
  have "run (replicate (Suc m) (Call a b)) w = run (replicate m (Call a b)) ?w1"
    using run_Cons [OF s] by simp
  also have "\<dots> = Some (converged w a b m)"
    unfolding later_calls [OF 1 2 3 4] by (simp add: converged_def re)
  finally show ?thesis .
qed

lemma in_flight_none:
  assumes np: "\<And>q. promise_state w q \<noteq> Some Pending"
  shows "in_flight w = []"
proof (cases "in_flight w")
  case Nil
  then show ?thesis .
next
  case (Cons p ps)
  then have "p \<in> set (in_flight w)" by simp
  then have "promise_state w p = Some Pending" by (simp add: in_flight_pending)
  with np show ?thesis by blast
qed

lemma in_flight_one:
  assumes "promise_state w p = Some Pending"
    and "\<And>q. q \<noteq> p \<Longrightarrow> promise_state w q \<noteq> Some Pending"
  shows "in_flight w = [p]"
proof -
  have mem: "p \<in> set (in_flight w)" using assms(1) by (simp add: in_flight_pending)
  have all: "\<And>q. q \<in> set (in_flight w) \<Longrightarrow> q = p"
    using assms(2) by (auto simp: in_flight_pending)
  from all_equal_short [OF distinct_in_flight all] have "length (in_flight w) \<le> Suc 0" by simp
  with mem all show ?thesis by (cases "in_flight w") auto
qed

lemma in_flight_converged:
  assumes "inv w" "refreshPromise w = None"
  shows "in_flight (converged w a b m) = [length (promises w)]"
  using no_handle_no_pending [OF assms]
  by (intro in_flight_one) (simp_all add: promise_state_converged)

lemma filter_waiters [simp]:
  "filter (\<lambda>k. promise_of k = p) (map (\<lambda>c. AwaitShared c p) cs) = map (\<lambda>c. AwaitShared c p) cs"
  "filter (\<lambda>k. promise_of k \<noteq> p) (map (\<lambda>c. AwaitShared c p) cs) = []"
  by (induction cs) simp_all

text \<open>The answer to the refresh that the converged invocations wait for.\<close>

lemma settle_converged:
  assumes "microtasks w = []"
  shows "step (Settle (length (promises w)) ans) (converged w a b m) =
           Some (settle (length (promises w)) ans (converged w a b m))"
    and "microtasks (settle (length (promises w)) ans (converged w a b m)) =
           reactions (converged w a b m)"
    and "reactions (settle (length (promises w)) ans (converged w a b m)) = []"
    and "promise_state (settle (length (promises w)) ans (converged w a b m)) q =
           (if q = length (promises w) then Some (refresh_settles ans) else promise_state w q)"
  using assms
  by (simp_all add: promise_state_converged promise_state_settle)

section \<open>The stored refresh token\<close>

lemma refresh_entry_ok_setTokens:
  "refresh_entry_ok (cache w) \<Longrightarrow> refresh_entry_ok (cache (setTokens tokens now w))"
  by (cases "refresh_token tokens")
     (simp_all add: refresh_entry_ok_def setTokens_def Let_def cache_set_def cache_wrap_def)

lemma refresh_entry_ok_clearTokens:
  "refresh_entry_ok (cache (clearTokens w))"
  by (simp add: refresh_entry_ok_def clearTokens_def)

lemma refresh_entry_ok_initializeFromEnv:
  "refresh_entry_ok (cache w) \<Longrightarrow> refresh_entry_ok (cache (initializeFromEnv env now w))"
  by (simp add: initializeFromEnv_def Let_def refresh_entry_ok_setTokens)

lemma cache_getValidAccessToken:
  "cache (getValidAccessToken c a b w) = cache w"
  by (simp add: getValidAccessToken_def Let_def await_def refreshAccessToken_def finish_def
        split: option.splits)

lemma refresh_entry_ok_resume:
  "refresh_entry_ok (cache w) \<Longrightarrow> resume k w = Some w' \<Longrightarrow> refresh_entry_ok (cache w')"
  by (cases k) (auto split: option.splits settled.splits simp: refresh_entry_ok_setTokens)

lemma refresh_entry_ok_step:
  assumes "refresh_entry_ok (cache w)" "step e w = Some w'"
  shows "refresh_entry_ok (cache w')"
proof (cases e)
  case (Call a b)
  with assms show ?thesis by (auto split: if_splits simp: cache_getValidAccessToken)
next
  case (Settle p a)
  with assms show ?thesis by (auto split: if_splits)
next
  case Microtask
  with assms(2) obtain k ks where "microtasks w = k # ks" "resume k (w\<lparr>microtasks := ks\<rparr>) = Some w'"
    by (auto split: list.splits)
  with refresh_entry_ok_resume [of "w\<lparr>microtasks := ks\<rparr>" k w'] assms(1) show ?thesis by simp
next
  case (Tick d)
  with assms show ?thesis by (auto split: if_splits)
next
  case (SetTokens tokens)
  with assms show ?thesis by (auto split: if_splits simp: refresh_entry_ok_setTokens)
next
  case ClearTokens
  with assms show ?thesis by (auto split: if_splits simp: refresh_entry_ok_clearTokens)
next
  case (InitializeFromEnv env)
  with assms show ?thesis by (auto split: if_splits simp: refresh_entry_ok_initializeFromEnv)
qed

lemma reachable_refresh_entry_ok: "reachable w \<Longrightarrow> refresh_entry_ok (cache w)"
proof (induction rule: reachable.induct)
  case (reachable_initial t0)
  show ?case by (simp add: refresh_entry_ok_def initial_def)
next
  case (reachable_step w e w')
  then show ?case using refresh_entry_ok_step by blast
qed

lemma reachable_refresh_truthy:
  "reachable w \<Longrightarrow> getRefreshToken w t = Some r \<Longrightarrow> truthy (getRefreshToken w t)"
  using reachable_refresh_entry_ok [of w]
  by (auto simp: refresh_entry_ok_def getRefreshToken_def cache_get_def split: option.splits if_splits)

section \<open>Calls spread over time\<close>

lemma cache_get_falsy_later:
  "\<not> truthy (cache_get c k t) \<Longrightarrow> t \<le> t' \<Longrightarrow> \<not> truthy (cache_get c k t')"
  by (auto simp: cache_get_def cache_check_def split: option.splits if_splits)

lemma getAccessToken_falsy_later:
  "\<not> truthy (getAccessToken w t) \<Longrightarrow> t \<le> t' \<Longrightarrow> \<not> truthy (getAccessToken w t')"
  unfolding getAccessToken_def by (rule cache_get_falsy_later)

lemma getAccessToken_clock_upd [simp]:
  "getAccessToken (w\<lparr>clock := t'\<rparr>) t = getAccessToken w t"
  by (simp add: getAccessToken_def)

text \<open>Calls and the passing of time while a refresh is pending: every call joins it.\<close>

lemma later_events:
  assumes "microtasks w = []" "\<not> truthy (getAccessToken w (clock w))"
    "refreshPromise w = Some p" "promise_state w p = Some Pending"
    "\<forall>e \<in> set es. joins e"
  shows "run es w =
     Some (w\<lparr>invocations := invocations w + ncalls es,
             clock := clock w + elapsed es,
             reactions := reactions w @
               map (\<lambda>c. AwaitShared c p) [invocations w ..< invocations w + ncalls es]\<rparr>)
     \<and> 0 \<le> elapsed es"
  using assms
proof (induction es arbitrary: w)
  case Nil
  then show ?case by simp
next
  case (Cons e es)
  from Cons.prems(5) have je: "joins e" and jes: "\<forall>e \<in> set es. joins e" by simp_all
  show ?case
  proof (cases e)
    case (Call a b)
    let ?w1 = "w\<lparr>invocations := Suc (invocations w),
               reactions := reactions w @ [AwaitShared (invocations w) p]\<rparr>"
    have s: "step (Call a b) w = Some ?w1" using later_call [OF Cons.prems(1-4)] .
    have ih: "run es ?w1 =
       Some (?w1\<lparr>invocations := invocations ?w1 + ncalls es,
               clock := clock ?w1 + elapsed es,
               reactions := reactions ?w1 @
                 map (\<lambda>c. AwaitShared c p) [invocations ?w1 ..< invocations ?w1 + ncalls es]\<rparr>)
       \<and> 0 \<le> elapsed es"
      using Cons.prems(1-4) jes by (intro Cons.IH) simp_all
    have u: "[invocations w ..< invocations w + Suc (ncalls es)]
                 = invocations w # [Suc (invocations w) ..< Suc (invocations w) + ncalls es]"
      by (simp add: upt_conv_Cons)
    have "run (e # es) w = run es ?w1" unfolding Call by (rule run_Cons [OF s])
    with ih u show ?thesis unfolding Call by (simp del: step.simps upt_Suc)
  next
    case (Tick d)
    with je have d: "0 \<le> d" by simp
    let ?w1 = "w\<lparr>clock := clock w + d\<rparr>"
    have s: "step (Tick d) w = Some ?w1" using Cons.prems(1) d by simp
    have na: "\<not> truthy (getAccessToken ?w1 (clock ?w1))"
      using getAccessToken_falsy_later [OF Cons.prems(2), of "clock w + d"] d by simp
    have ih: "run es ?w1 =
       Some (?w1\<lparr>invocations := invocations ?w1 + ncalls es,
               clock := clock ?w1 + elapsed es,
               reactions := reactions ?w1 @
                 map (\<lambda>c. AwaitShared c p) [invocations ?w1 ..< invocations ?w1 + ncalls es]\<rparr>)
       \<and> 0 \<le> elapsed es"
      using Cons.prems(1,3,4) na jes by (intro Cons.IH) simp_all
    have "run (e # es) w = run es ?w1" unfolding Tick by (rule run_Cons [OF s])
    with ih d show ?thesis unfolding Tick by (simp del: step.simps upt_Suc add: add.assoc)
  next
    case (Settle p' a)
    with je show ?thesis by simp
  next
    case Microtask
    with je show ?thesis by simp
  next
    case (SetTokens t)
    with je show ?thesis by simp
  next
    case ClearTokens
    with je show ?thesis by simp
  next
    case (InitializeFromEnv env)
    with je show ?thesis by simp
  qed
qed

section \<open>One refresh serves all the invocations that converge on it\<close>

lemma getRefreshToken_clock_upd [simp]:
  "getRefreshToken (w\<lparr>clock := t'\<rparr>) t = getRefreshToken w t"
  by (simp add: getRefreshToken_def)

lemma promise_state_converged_clock [simp]:
  "promise_state ((converged w a b m)\<lparr>clock := t\<rparr>) q =
     (if q = length (promises w) then Some Pending else promise_state w q)"
  by (simp add: promise_state_converged)

lemma events_converge:
  assumes i: "inv w" and q: "microtasks w = []"
    and na: "\<not> truthy (getAccessToken w (clock w))"
    and nh: "refreshPromise w = None"
    and r: "truthy (getRefreshToken w (clock w))"
    and j: "\<forall>e \<in> set es. joins e"
  shows "run (Call a b # es) w =
           Some ((converged w a b (ncalls es))\<lparr>clock := clock w + elapsed es\<rparr>)"
proof -
  let ?w1 = "converged w a b 0"
  have "run (replicate (Suc 0) (Call a b)) w = Some ?w1"
    by (rule calls_converge [OF i q na nh r])
  then have s: "step (Call a b) w = Some ?w1"
    by (simp only: replicate.simps run_single)
  have 1: "microtasks ?w1 = []" using q by simp
  have 2: "\<not> truthy (getAccessToken ?w1 (clock ?w1))"
    using na by (simp add: getAccessToken_def)
  have 3: "refreshPromise ?w1 = Some (length (promises w))" by simp
  have 4: "promise_state ?w1 (length (promises w)) = Some Pending"
    by (simp add: promise_state_converged)
  from later_events [OF 1 2 3 4 j]
  have "run es ?w1 =
     Some (?w1\<lparr>invocations := invocations ?w1 + ncalls es,
             clock := clock ?w1 + elapsed es,
             reactions := reactions ?w1 @
               map (\<lambda>c. AwaitShared c (length (promises w)))
                 [invocations ?w1 ..< invocations ?w1 + ncalls es]\<rparr>)"
    by blast
  also have "?w1\<lparr>invocations := invocations ?w1 + ncalls es,
             clock := clock ?w1 + elapsed es,
             reactions := reactions ?w1 @
               map (\<lambda>c. AwaitShared c (length (promises w)))
                 [invocations ?w1 ..< invocations ?w1 + ncalls es]\<rparr>
          = (converged w a b (ncalls es))\<lparr>clock := clock w + elapsed es\<rparr>"
    by (simp add: converged_def del: upt_Suc)
  finally show ?thesis using run_Cons [OF s] by simp
qed

text \<open>
  A state in which one invocation has started a refresh and others have joined it, and
  the refresh succeeds.
\<close>

lemma joined_refresh_succeeds:
  assumes q: "microtasks wc = []"
    and re: "reactions wc = AwaitOwn c0 p # map (\<lambda>c. AwaitShared c p) cs"
    and pend: "promise_state wc p = Some Pending"
    and others: "\<And>q. q \<noteq> p \<Longrightarrow> promise_state wc q \<noteq> Some Pending"
  shows "\<exists>w2. run (Settle p (ResponseData tokens) # replicate (Suc (length cs)) Microtask) wc
                 = Some w2
          \<and> requests w2 = requests wc
          \<and> in_flight w2 = [] \<and> refreshPromise w2 = None \<and> microtasks w2 = []
          \<and> (\<forall>c. c = c0 \<or> c \<in> set cs \<longrightarrow>
                 outcomes w2 c = Some (Returned (access_token tokens)))"
proof -
  let ?ws = "settle p (ResponseData tokens) wc"
  have s1: "step (Settle p (ResponseData tokens)) wc = Some ?ws" using q pend by simp
  have ps: "\<And>q. promise_state ?ws q = (if q = p then Some (Fulfilled tokens) else promise_state wc q)"
    using promise_state_settle [OF pend] by simp
  have m1: "microtasks ?ws = AwaitOwn c0 p # map (\<lambda>c. AwaitShared c p) cs"
    using q re by simp
  let ?w0 = "?ws\<lparr>microtasks := map (\<lambda>c. AwaitShared c p) cs\<rparr>"
  have f0: "promise_state ?w0 p = Some (Fulfilled tokens)" using ps [of p] by simp
  let ?w3 = "finish c0 (Returned (access_token tokens))
               ((setTokens tokens (clock ?w0) ?w0)\<lparr>refreshPromise := None\<rparr>)"
  have s2: "step Microtask ?ws = Some ?w3"
    unfolding step_Microtask [OF m1] resume_fulfilled_own [OF f0] by simp
  have f3: "promise_state ?w3 p = Some (Fulfilled tokens)" using f0 by simp
  have m3: "microtasks ?w3 = map (\<lambda>c. AwaitShared c p) cs" by simp
  from drain_fulfilled_shared [OF f3 m3] obtain w2 where
    w2: "run (replicate (length cs) Microtask) ?w3 = Some w2"
      "microtasks w2 = []"
      "promises w2 = promises ?w3" "requests w2 = requests ?w3"
      "refreshPromise w2 = refreshPromise ?w3"
      "\<forall>c. outcomes w2 c =
                (if c \<in> set cs then Some (Returned (access_token tokens)) else outcomes ?w3 c)"
    by blast
  have "run (Settle p (ResponseData tokens) # replicate (Suc (length cs)) Microtask) wc
          = run (replicate (Suc (length cs)) Microtask) ?ws"
    by (rule run_Cons [OF s1])
  also have "\<dots> = run (Microtask # replicate (length cs) Microtask) ?ws"
    by (simp only: replicate_Suc)
  also have "\<dots> = run (replicate (length cs) Microtask) ?w3"
    by (rule run_Cons [OF s2])
  also have "\<dots> = Some w2" by (rule w2(1))
  finally have run: "run (Settle p (ResponseData tokens) # replicate (Suc (length cs)) Microtask) wc
                 = Some w2" .
  have ps2: "\<And>q. promise_state w2 q = promise_state ?ws q"
    using w2(3) by (simp add: promise_state_def)
  have "\<And>q. promise_state w2 q \<noteq> Some Pending"
    unfolding ps2 ps using others by simp
  then have fl: "in_flight w2 = []" by (rule in_flight_none)
  have oc: "\<forall>c. c = c0 \<or> c \<in> set cs \<longrightarrow>
                 outcomes w2 c = Some (Returned (access_token tokens))"
    using w2(6) by simp
  show ?thesis
    using run fl oc w2(2,4,5) by (intro exI [of _ w2]) simp
qed

section \<open>Running the examples\<close>

lemma run_append:
  "run (xs @ ys) w = (case run xs w of None \<Rightarrow> None | Some w' \<Rightarrow> run ys w')"
  by (induction xs arbitrary: w) (simp_all split: option.splits)

lemma expired_world_run:
  "run [SetTokens (example_tokens ''A1'' (Some 3600) (Some ''R1'')), Tick 3301000] (initial 0)
     = Some expired_world"
  by (simp add: initial_def expired_world_def example_tokens_def setTokens_def cache_set_def
        cache_wrap_def Let_def)

lemma expired_world_reachable: "reachable expired_world"
  using reachable_run [OF reachable_initial expired_world_run] .

lemma expired_world_tokens:
  "getAccessToken expired_world (clock expired_world) = None"
  "getRefreshToken expired_world (clock expired_world) = Some ''R1''"
  by (simp_all add: expired_world_def getAccessToken_def getRefreshToken_def cache_get_def
        cache_check_def)

lemma expired_world_fields [simp]:
  "microtasks expired_world = []" "refreshPromise expired_world = None"
  "promises expired_world = []" "requests expired_world = []"
  "invocations expired_world = 0" "reactions expired_world = []"
  by (simp_all add: expired_world_def)

lemma access_token_lifetime:
  assumes "0 \<le> now"
  shows "getAccessToken (setTokens tokens now tm) t =
           (if t \<le> now + max (or_default (expires_in tokens) 3600 - 300) 60 * 1000
            then Some (access_token tokens) else None)"
proof -
  have "(0::int) < max (or_default (expires_in tokens) 3600 - 300) 60" by simp
  from wrapped_lifetime [of now _ "cache (setTokens tokens now tm)" "''access_token''",
        OF assms this setTokens_access_entry]
  show ?thesis by (simp only: getAccessToken_def)
qed

section \<open>A refresh that fails\<close>

lemma pending_in_range: "promise_state w p = Some Pending \<Longrightarrow> p < length (promises w)"
  by (simp add: promise_state_def split: if_splits)

text \<open>
  A refresh fails in a quiescent state: all the invocations waiting for it are resumed,
  each throws, and \<open>refreshPromise\<close> is \<^verbatim>\<open>null\<close> from the first of them on.
\<close>

lemma failed_refresh_drain:
  assumes i: "inv w" and q: "microtasks w = []"
    and pend: "promise_state w p = Some Pending" and f: "refresh_settles a = Rejected e"
    and n: "0 < n" "n \<le> length (reactions w)"
  shows "\<exists>wn. run (Settle p a # replicate n Microtask) w = Some wn
          \<and> microtasks wn = drop n (reactions w) \<and> reactions wn = []
          \<and> promises wn = (promises w)[p := Rejected e]
          \<and> requests wn = requests w \<and> cache wn = cache w \<and> clock wn = clock w
          \<and> invocations wn = invocations w
          \<and> refreshPromise wn = None
          \<and> (\<forall>c. outcomes wn c =
                (if c \<in> caller_of ` set (take n (reactions w))
                 then Some (Threw (thrown_by (last (filter (\<lambda>k. caller_of k = c) (take n (reactions w)))) e))
                 else outcomes w c))"
proof -
  let ?ws = "settle p a w"
  have others: "\<And>q. q \<noteq> p \<Longrightarrow> promise_state w q \<noteq> Some Pending"
    using only_handle_pending [OF i pend] by blast
  have all_p: "\<And>k. k \<in> set (reactions w) \<Longrightarrow> promise_of k = p"
    using reactions_on_pending [OF i] others by blast
  then have fl: "filter (\<lambda>k. promise_of k = p) (reactions w) = reactions w"
    and fl': "filter (\<lambda>k. promise_of k \<noteq> p) (reactions w) = []"
    by (simp_all add: filter_empty_conv)
  have s: "step (Settle p a) w = Some ?ws" using q pend by simp
  have ms: "microtasks ?ws = reactions w" using q fl by simp
  have rs: "reactions ?ws = []" using fl' by simp
  have ps: "\<And>q. promise_state ?ws q = (if q = p then Some (Rejected e) else promise_state w q)"
    using promise_state_settle [OF pend] f by simp
  have rej: "\<forall>k \<in> set (microtasks ?ws). promise_state ?ws (promise_of k) = Some (Rejected e)"
    using all_p unfolding ms by (simp add: ps)
  have le: "n \<le> length (microtasks ?ws)" using n(2) unfolding ms .
  from drain_rejected [OF rej le] obtain wn where
    wn: "run (replicate n Microtask) ?ws = Some wn"
      "microtasks wn = drop n (microtasks ?ws)"
      "promises wn = promises ?ws" "requests wn = requests ?ws" "cache wn = cache ?ws"
      "clock wn = clock ?ws" "reactions wn = reactions ?ws" "invocations wn = invocations ?ws"
      "refreshPromise wn = (if n = 0 then refreshPromise ?ws else None)"
      "\<forall>c. outcomes wn c =
                (if c \<in> caller_of ` set (take n (microtasks ?ws))
                 then Some (Threw (thrown_by (last (filter (\<lambda>k. caller_of k = c) (take n (microtasks ?ws)))) e))
                 else outcomes ?ws c)"
    by blast
  have r: "run (Settle p a # replicate n Microtask) w = Some wn"
    using run_Cons [OF s] wn(1) by simp
  have pr: "promises ?ws = (promises w)[p := Rejected e]"
    using f by (simp add: settle_def)
  show ?thesis
    using r wn(2-10) n(1) rs pr unfolding ms
    by (intro exI [of _ wn]) simp
qed

lemma inv_pending_waiters:
  assumes "inv w" "microtasks w = []" "promise_state w p = Some Pending"
  shows "0 < length (reactions w)"
  using pending_has_initiator [OF assms] by (cases "reactions w") auto

lemma expired_world_inv: "inv expired_world"
  using expired_world_reachable by (rule reachable_inv)

lemma expired_world_converges:
  "run (replicate (Suc m) (Call a b)) expired_world = Some (converged expired_world a b m)"
  by (rule calls_converge [OF expired_world_inv]) (simp_all add: expired_world_tokens)

lemma converged_reachable: "reachable (converged expired_world a b m)"
  using reachable_run [OF expired_world_reachable expired_world_converges] .

section \<open>The retry on HTTP 429\<close>

lemma handleAxiosError_code:
  "\<not> rate_limited error \<Longrightarrow> code (handleAxiosError error) \<noteq> ''RATE_LIMIT_ERROR''"
  by (auto simp: handleAxiosError_def rate_limited_def Let_def AuthenticationError_def
        AuthorizationError_def NotFoundError_def ValidationError_def ApiClientError_def
        split: option.splits)

lemma request_Reject_429:
  "rate_limited error \<Longrightarrow>
   request (Reject error # rest) waits = request rest (waits @ [retry_delay error])"
  by (auto simp: rate_limited_def retry_delay_def split: option.splits)

lemma request_Reject_other:
  "\<not> rate_limited error \<Longrightarrow>
   request (Reject error # rest) waits = Failed (handleAxiosError error) waits"
  by (auto simp: rate_limited_def split: option.splits)

lemma dispatches_Reject_429:
  "rate_limited error \<Longrightarrow> dispatches (Reject error # rest) = Suc (dispatches rest)"
  by (auto simp: rate_limited_def split: option.splits)

lemma request_retries:
  "\<forall>error \<in> set es. rate_limited error \<Longrightarrow>
   request (map Reject es @ rest) waits = request rest (waits @ map retry_delay es)
   \<and> dispatches (map Reject es @ rest) = length es + dispatches rest"
proof (induction es arbitrary: waits)
  case Nil
  then show ?case by simp
next
  case (Cons error es)
  then have r: "rate_limited error" and rs: "\<forall>error \<in> set es. rate_limited error" by simp_all
  from Cons.IH [OF rs, of "waits @ [retry_delay error]"] show ?case
    by (simp add: request_Reject_429 [OF r] dispatches_Reject_429 [OF r] del: request.simps dispatches.simps)
qed

lemma request_never_rate_limit_error:
  "request script waits = Failed e ws \<Longrightarrow> code e \<noteq> ''RATE_LIMIT_ERROR''"
proof (induction script arbitrary: waits)
  case Nil
  then show ?case by simp
next
  case (Cons t script)
  show ?case
  proof (cases t)
    case (Fulfil r)
    with Cons.prems show ?thesis by simp
  next
    case (Reject error)
    show ?thesis
    proof (cases "rate_limited error")
      case True
      with Cons.prems Reject have "request script (waits @ [retry_delay error]) = Failed e ws"
        by (simp add: request_Reject_429 del: request.simps)
      then show ?thesis by (rule Cons.IH)
    next
      case False
      with Cons.prems Reject have "e = handleAxiosError error"
        by (simp add: request_Reject_other del: request.simps)
      with handleAxiosError_code [OF False] show ?thesis by simp
    qed
  qed
qed

section \<open>The claims\<close>

text \<open>
  C1. At every reachable state at most one refresh is in flight. In a state where no
  access token is cached, a refresh token \<open>r\<close> is present and no refresh is under
  way, an invocation of \<^verbatim>\<open>getValidAccessToken\<close> is followed by the events \<open>es\<close>:
  further invocations, at least one, with time passing before, between and after them.
  Then the token endpoint has received exactly one request, carrying \<open>r\<close>, and one
  refresh is in flight. When the endpoint answers with \<open>tokens\<close>, the invocations are
  resumed without a further request, and every one of them, the first and those of
  \<open>es\<close>, returns the access token of \<open>tokens\<close>.
\<close>

theorem single_flight:
  assumes "reachable w"
  shows "length (in_flight w) \<le> 1 \<and>
    (microtasks w = [] \<and> \<not> truthy (getAccessToken w (clock w)) \<and> refreshPromise w = None
       \<and> getRefreshToken w (clock w) = Some r \<and> (\<forall>e \<in> set es. joins e) \<and> 1 \<le> ncalls es \<longrightarrow>
     (\<exists>w1 w2. run (Call clientId clientSecret # es) w = Some w1
        \<and> requests w1 = requests w @ [(clientId, clientSecret, r)]
        \<and> in_flight w1 = [length (promises w)]
        \<and> run (Settle (length (promises w)) (ResponseData tokens)
                 # replicate (Suc (ncalls es)) Microtask) w1 = Some w2
        \<and> requests w2 = requests w1 \<and> in_flight w2 = [] \<and> refreshPromise w2 = None
        \<and> microtasks w2 = []
        \<and> (\<forall>c. invocations w \<le> c \<and> c < invocations w + Suc (ncalls es) \<longrightarrow>
               outcomes w2 c = Some (Returned (access_token tokens)))))"
proof (intro conjI impI)
  have i: "inv w" using assms by (rule reachable_inv)
  show "length (in_flight w) \<le> 1" using i by (rule inv_in_flight)
  assume h: "microtasks w = [] \<and> \<not> truthy (getAccessToken w (clock w)) \<and> refreshPromise w = None
       \<and> getRefreshToken w (clock w) = Some r \<and> (\<forall>e \<in> set es. joins e) \<and> 1 \<le> ncalls es"
  then have q: "microtasks w = []" and na: "\<not> truthy (getAccessToken w (clock w))"
    and nh: "refreshPromise w = None" and rt: "getRefreshToken w (clock w) = Some r"
    and j: "\<forall>e \<in> set es. joins e"
    by simp_all
  have tr: "truthy (getRefreshToken w (clock w))"
    using reachable_refresh_truthy [OF assms rt] .
  let ?p = "length (promises w)"
  let ?cs = "[Suc (invocations w) ..< Suc (invocations w) + ncalls es]"
  let ?w1 = "(converged w clientId clientSecret (ncalls es))\<lparr>clock := clock w + elapsed es\<rparr>"
  have c: "run (Call clientId clientSecret # es) w = Some ?w1"
    by (rule events_converge [OF i q na nh tr j])
  have np: "\<And>q. promise_state w q \<noteq> Some Pending" using no_handle_no_pending [OF i nh] .
  have q1: "microtasks ?w1 = []" using q by simp
  have re: "reactions ?w1 = AwaitOwn (invocations w) ?p # map (\<lambda>c. AwaitShared c ?p) ?cs"
    by simp
  have pend: "promise_state ?w1 ?p = Some Pending" by (simp add: promise_state_converged)
  have others: "\<And>q. q \<noteq> ?p \<Longrightarrow> promise_state ?w1 q \<noteq> Some Pending"
    using np by (simp add: promise_state_converged)
  have len: "length ?cs = ncalls es" by simp
  from joined_refresh_succeeds [OF q1 re pend others, of tokens]
  obtain w2 where w2:
    "run (Settle ?p (ResponseData tokens) # replicate (Suc (ncalls es)) Microtask) ?w1 = Some w2"
    "requests w2 = requests ?w1"
    "in_flight w2 = []" "refreshPromise w2 = None" "microtasks w2 = []"
    "\<forall>c. c = invocations w \<or> c \<in> set ?cs \<longrightarrow>
                 outcomes w2 c = Some (Returned (access_token tokens))"
    unfolding len by blast
  have rq: "requests ?w1 = requests w @ [(clientId, clientSecret, r)]"
    by (simp add: rt)
  have fl: "in_flight ?w1 = [?p]"
    using pend others by (rule in_flight_one)
  have oc: "\<forall>c. invocations w \<le> c \<and> c < invocations w + Suc (ncalls es) \<longrightarrow>
               outcomes w2 c = Some (Returned (access_token tokens))"
  proof (intro allI impI)
    fix c assume "invocations w \<le> c \<and> c < invocations w + Suc (ncalls es)"
    then have "c = invocations w \<or> c \<in> set ?cs" by auto
    with w2(6) show "outcomes w2 c = Some (Returned (access_token tokens))" by blast
  qed
  show "\<exists>w1 w2. run (Call clientId clientSecret # es) w = Some w1
        \<and> requests w1 = requests w @ [(clientId, clientSecret, r)]
        \<and> in_flight w1 = [length (promises w)]
        \<and> run (Settle (length (promises w)) (ResponseData tokens)
                 # replicate (Suc (ncalls es)) Microtask) w1 = Some w2
        \<and> requests w2 = requests w1 \<and> in_flight w2 = [] \<and> refreshPromise w2 = None
        \<and> microtasks w2 = []
        \<and> (\<forall>c. invocations w \<le> c \<and> c < invocations w + Suc (ncalls es) \<longrightarrow>
               outcomes w2 c = Some (Returned (access_token tokens)))"
  proof (rule exI [of _ ?w1], rule exI [of _ w2], intro conjI)
    show "run (Call clientId clientSecret # es) w = Some ?w1" by (rule c)
    show "requests ?w1 = requests w @ [(clientId, clientSecret, r)]" by (rule rq)
    show "in_flight ?w1 = [length (promises w)]" by (rule fl)
    show "run (Settle (length (promises w)) (ResponseData tokens)
                 # replicate (Suc (ncalls es)) Microtask) ?w1 = Some w2" by (rule w2(1))
    show "requests w2 = requests ?w1" by (rule w2(2))
    show "in_flight w2 = []" by (rule w2(3))
    show "refreshPromise w2 = None" by (rule w2(4))
    show "microtasks w2 = []" by (rule w2(5))
    show "\<forall>c. invocations w \<le> c \<and> c < invocations w + Suc (ncalls es) \<longrightarrow>
               outcomes w2 c = Some (Returned (access_token tokens))" by (rule oc)
  qed
qed

theorem single_flight_witness:
  "reachable expired_world
   \<and> length (in_flight expired_world) \<le> 1
   \<and> requests_of (run ([Call ''id'' ''secret'', Tick 40, Call ''id'' ''secret'', Tick 100,
                          Call ''id'' ''secret'', Tick 250]
        @ Settle 0 (ResponseData (example_tokens ''A2'' (Some 3600) None)) # replicate 3 Microtask)
        expired_world) = [(''id'', ''secret'', ''R1'')]
   \<and> outcome_of (run ([Call ''id'' ''secret'', Tick 40, Call ''id'' ''secret'', Tick 100,
                          Call ''id'' ''secret'', Tick 250]
        @ Settle 0 (ResponseData (example_tokens ''A2'' (Some 3600) None)) # replicate 3 Microtask)
        expired_world) 0 = Some (Returned ''A2'')
   \<and> outcome_of (run ([Call ''id'' ''secret'', Tick 40, Call ''id'' ''secret'', Tick 100,
                          Call ''id'' ''secret'', Tick 250]
        @ Settle 0 (ResponseData (example_tokens ''A2'' (Some 3600) None)) # replicate 3 Microtask)
        expired_world) 1 = Some (Returned ''A2'')
   \<and> outcome_of (run ([Call ''id'' ''secret'', Tick 40, Call ''id'' ''secret'', Tick 100,
                          Call ''id'' ''secret'', Tick 250]
        @ Settle 0 (ResponseData (example_tokens ''A2'' (Some 3600) None)) # replicate 3 Microtask)
        expired_world) 2 = Some (Returned ''A2'')"
proof -
  let ?t = "example_tokens ''A2'' (Some 3600) None"
  let ?es = "[Tick 40, Call ''id'' ''secret'', Tick 100, Call ''id'' ''secret'', Tick 250]"
  have n: "ncalls ?es = 2" by simp
  have h: "microtasks expired_world = [] \<and> \<not> truthy (getAccessToken expired_world (clock expired_world))
       \<and> refreshPromise expired_world = None
       \<and> getRefreshToken expired_world (clock expired_world) = Some ''R1''
       \<and> (\<forall>e \<in> set ?es. joins e) \<and> 1 \<le> ncalls ?es"
    by (simp add: expired_world_tokens)
  from single_flight [OF expired_world_reachable, of "''R1''" ?es "''id''" "''secret''" ?t] h
  obtain w1 w2 where f: "length (in_flight expired_world) \<le> 1"
    "run (Call ''id'' ''secret'' # ?es) expired_world = Some w1"
    "requests w1 = [(''id'', ''secret'', ''R1'')]"
    "run (Settle 0 (ResponseData ?t) # replicate (Suc (ncalls ?es)) Microtask) w1 = Some w2"
    "requests w2 = requests w1"
    "\<forall>c. c < Suc (ncalls ?es) \<longrightarrow> outcomes w2 c = Some (Returned (access_token ?t))"
    by auto
  have r3: "replicate (Suc (ncalls ?es)) Microtask = replicate 3 Microtask"
    by (simp only: n) simp
  have r: "run ([Call ''id'' ''secret'', Tick 40, Call ''id'' ''secret'', Tick 100,
                 Call ''id'' ''secret'', Tick 250]
             @ Settle 0 (ResponseData ?t) # replicate 3 Microtask) expired_world = Some w2"
    using f(2,4) unfolding r3 by (simp only: run_append option.case)
  have o: "\<forall>c. c < 3 \<longrightarrow> outcomes w2 c = Some (Returned (access_token ?t))"
    using f(6) by (simp only: n) simp
  show ?thesis
    unfolding r using f(1,3,5) o expired_world_reachable
    by (simp add: requests_of_def outcome_of_def example_tokens_def)
qed

text \<open>
  C2. A refresh that is pending in a quiescent state fails with \<open>e\<close>. Before the
  first waiting invocation is resumed nobody has received the failure; once \<open>n \<ge> 1\<close>
  of the waiting invocations have been resumed, \<^verbatim>\<open>refreshPromise\<close> is \<^verbatim>\<open>null\<close>, so it is
  cleared before any invocation throws to its caller. When all have been resumed, every
  one of them has thrown, the token endpoint has received no further request (the failed
  refresh is not retried), no refresh is in flight, and cache and clock are as before.
  An invocation made then, with no access token cached and a refresh token \<open>r\<close>
  present, sends a new request with \<open>r\<close> and registers a new promise, different from
  the failed one, in \<^verbatim>\<open>refreshPromise\<close>.
\<close>

theorem failed_refresh_clears_handle:
  assumes "reachable w" and "microtasks w = []" and "promise_state w p = Some Pending"
    and "refresh_settles a = Rejected e"
  shows "0 < length (reactions w)
    \<and> outcomes (settle p a w) = outcomes w
    \<and> (\<forall>n. 0 < n \<and> n \<le> length (reactions w) \<longrightarrow>
          (\<exists>wn. run (Settle p a # replicate n Microtask) w = Some wn
             \<and> refreshPromise wn = None \<and> requests wn = requests w))
    \<and> (\<exists>w1. run (Settle p a # replicate (length (reactions w)) Microtask) w = Some w1
          \<and> microtasks w1 = [] \<and> refreshPromise w1 = None \<and> in_flight w1 = []
          \<and> requests w1 = requests w \<and> promises w1 = (promises w)[p := Rejected e]
          \<and> cache w1 = cache w \<and> clock w1 = clock w
          \<and> (\<forall>k \<in> set (reactions w). \<exists>e'. outcomes w1 (caller_of k) = Some (Threw e'))
          \<and> (\<forall>r clientId clientSecret.
                \<not> truthy (getAccessToken w1 (clock w1)) \<and> getRefreshToken w1 (clock w1) = Some r \<longrightarrow>
                (\<exists>w2. step (Call clientId clientSecret) w1 = Some w2
                   \<and> requests w2 = requests w1 @ [(clientId, clientSecret, r)]
                   \<and> refreshPromise w2 = Some (length (promises w1))
                   \<and> length (promises w1) \<noteq> p
                   \<and> in_flight w2 = [length (promises w1)])))"
proof (intro conjI allI impI)
  have i: "inv w" using assms(1) by (rule reachable_inv)
  note q = assms(2) and pend = assms(3) and f = assms(4)
  show pos: "0 < length (reactions w)" using inv_pending_waiters [OF i q pend] .
  show "outcomes (settle p a w) = outcomes w" by simp
  {
    fix n assume n: "0 < n \<and> n \<le> length (reactions w)"
    then have n1: "0 < n" and n2: "n \<le> length (reactions w)" by simp_all
    from failed_refresh_drain [OF i q pend f n1 n2]
    show "\<exists>wn. run (Settle p a # replicate n Microtask) w = Some wn
             \<and> refreshPromise wn = None \<and> requests wn = requests w"
      by blast
  }
  from failed_refresh_drain [OF i q pend f pos order_refl]
  obtain w1 where w1: "run (Settle p a # replicate (length (reactions w)) Microtask) w = Some w1"
    "microtasks w1 = drop (length (reactions w)) (reactions w)" "reactions w1 = []"
    "promises w1 = (promises w)[p := Rejected e]"
    "requests w1 = requests w" "refreshPromise w1 = None"
    "cache w1 = cache w" "clock w1 = clock w"
    "\<forall>c. outcomes w1 c =
                (if c \<in> caller_of ` set (take (length (reactions w)) (reactions w))
                 then Some (Threw (thrown_by (last (filter (\<lambda>k. caller_of k = c) (take (length (reactions w)) (reactions w)))) e))
                 else outcomes w c)"
    by blast
  have r1: "reachable w1" using reachable_run [OF assms(1) w1(1)] .
  have i1: "inv w1" using r1 by (rule reachable_inv)
  have q1: "microtasks w1 = []" using w1(2) by simp
  have fl: "in_flight w1 = []"
    using no_handle_no_pending [OF i1 w1(6)] by (rule in_flight_none)
  have oc: "\<forall>k \<in> set (reactions w). \<exists>e'. outcomes w1 (caller_of k) = Some (Threw e')"
    using w1(9) by simp
  have len: "length (promises w1) \<noteq> p"
    using pending_in_range [OF pend] w1(4) by simp
  have again: "\<forall>r clientId clientSecret.
                \<not> truthy (getAccessToken w1 (clock w1)) \<and> getRefreshToken w1 (clock w1) = Some r \<longrightarrow>
                (\<exists>w2. step (Call clientId clientSecret) w1 = Some w2
                   \<and> requests w2 = requests w1 @ [(clientId, clientSecret, r)]
                   \<and> refreshPromise w2 = Some (length (promises w1))
                   \<and> length (promises w1) \<noteq> p
                   \<and> in_flight w2 = [length (promises w1)])"
  proof (intro allI impI)
    fix r clientId clientSecret
    assume h: "\<not> truthy (getAccessToken w1 (clock w1)) \<and> getRefreshToken w1 (clock w1) = Some r"
    then have na: "\<not> truthy (getAccessToken w1 (clock w1))"
      and rt: "getRefreshToken w1 (clock w1) = Some r" by simp_all
    have tr: "truthy (getRefreshToken w1 (clock w1))"
      using reachable_refresh_truthy [OF r1 rt] .
    have "run (replicate (Suc 0) (Call clientId clientSecret)) w1
            = Some (converged w1 clientId clientSecret 0)"
      by (rule calls_converge [OF i1 q1 na w1(6) tr])
    then have s: "step (Call clientId clientSecret) w1 = Some (converged w1 clientId clientSecret 0)"
      by (simp only: replicate.simps run_single)
    show "\<exists>w2. step (Call clientId clientSecret) w1 = Some w2
                   \<and> requests w2 = requests w1 @ [(clientId, clientSecret, r)]
                   \<and> refreshPromise w2 = Some (length (promises w1))
                   \<and> length (promises w1) \<noteq> p
                   \<and> in_flight w2 = [length (promises w1)]"
      using s len in_flight_converged [OF i1 w1(6), of clientId clientSecret 0]
      by (intro exI [of _ "converged w1 clientId clientSecret 0"]) (simp add: rt)
  qed
  show "\<exists>w1. run (Settle p a # replicate (length (reactions w)) Microtask) w = Some w1
          \<and> microtasks w1 = [] \<and> refreshPromise w1 = None \<and> in_flight w1 = []
          \<and> requests w1 = requests w \<and> promises w1 = (promises w)[p := Rejected e]
          \<and> cache w1 = cache w \<and> clock w1 = clock w
          \<and> (\<forall>k \<in> set (reactions w). \<exists>e'. outcomes w1 (caller_of k) = Some (Threw e'))
          \<and> (\<forall>r clientId clientSecret.
                \<not> truthy (getAccessToken w1 (clock w1)) \<and> getRefreshToken w1 (clock w1) = Some r \<longrightarrow>
                (\<exists>w2. step (Call clientId clientSecret) w1 = Some w2
                   \<and> requests w2 = requests w1 @ [(clientId, clientSecret, r)]
                   \<and> refreshPromise w2 = Some (length (promises w1))
                   \<and> length (promises w1) \<noteq> p
                   \<and> in_flight w2 = [length (promises w1)]))"
    using w1(1,4,5,6,7,8) q1 fl oc again by (intro exI [of _ w1]) simp
qed

theorem failed_refresh_clears_handle_witness:
  "\<exists>w1 w2. run (Settle 0 (AxiosFailure network_down) # replicate 2 Microtask)
              (converged expired_world ''id'' ''secret'' 1) = Some w1
     \<and> refreshPromise w1 = None \<and> in_flight w1 = []
     \<and> requests w1 = [(''id'', ''secret'', ''R1'')]
     \<and> step (Call ''id'' ''secret'') w1 = Some w2
     \<and> requests w2 = [(''id'', ''secret'', ''R1''), (''id'', ''secret'', ''R1'')]
     \<and> refreshPromise w2 = Some 1 \<and> in_flight w2 = [1]"
proof -
  let ?w = "converged expired_world ''id'' ''secret'' 1"
  have q: "microtasks ?w = []" by simp
  have pend: "promise_state ?w 0 = Some Pending" by (simp add: promise_state_converged)
  have f: "refresh_settles (AxiosFailure network_down) = Rejected (handleAxiosError network_down)"
    by simp
  have len: "length (reactions ?w) = 2" by simp
  from failed_refresh_clears_handle [OF converged_reachable q pend f]
  obtain w1 where w1:
    "run (Settle 0 (AxiosFailure network_down) # replicate 2 Microtask) ?w = Some w1"
    "refreshPromise w1 = None" "in_flight w1 = []" "requests w1 = requests ?w"
    "cache w1 = cache ?w" "clock w1 = clock ?w"
    "promises w1 = (promises ?w)[0 := Rejected (handleAxiosError network_down)]"
    and again: "\<And>r clientId clientSecret.
          \<not> truthy (getAccessToken w1 (clock w1)) \<and> getRefreshToken w1 (clock w1) = Some r \<Longrightarrow>
          (\<exists>w2. step (Call clientId clientSecret) w1 = Some w2
             \<and> requests w2 = requests w1 @ [(clientId, clientSecret, r)]
             \<and> refreshPromise w2 = Some (length (promises w1))
             \<and> length (promises w1) \<noteq> 0
             \<and> in_flight w2 = [length (promises w1)])"
    unfolding len by blast
  have t: "\<not> truthy (getAccessToken w1 (clock w1)) \<and> getRefreshToken w1 (clock w1) = Some ''R1''"
    using expired_world_tokens
    by (simp add: getAccessToken_def getRefreshToken_def w1(5,6))
  from again [OF t, of "''id''" "''secret''"] obtain w2 where w2:
    "step (Call ''id'' ''secret'') w1 = Some w2"
    "requests w2 = requests w1 @ [(''id'', ''secret'', ''R1'')]"
    "refreshPromise w2 = Some (length (promises w1))"
    "in_flight w2 = [length (promises w1)]"
    by blast
  have l1: "length (promises w1) = 1" using w1(7) by simp
  show ?thesis
    using w1(1-4) w2 unfolding l1
    by (intro exI [of _ w1] exI [of _ w2]) (simp add: expired_world_tokens)
qed

text \<open>
  C3. Two invocations converge on one refresh, which fails because the token endpoint
  cannot be reached. The invocation that started the refresh throws a
  \<^verbatim>\<open>TokenRefreshError\<close> wrapping the network error; the invocation that awaited the
  shared promise throws the network error itself, not wrapped.
\<close>

theorem waiter_receives_unwrapped_error:
  "outcome_of (run (replicate 2 (Call ''id'' ''secret'')
        @ Settle 0 (AxiosFailure network_down) # replicate 2 Microtask) expired_world) 0
     = Some (Threw (TickTickError
         ''Failed to refresh access token. Please re-authenticate with TickTick.''
         ''TOKEN_REFRESH_ERROR'' (Some 401)
         (Cause (TickTickError ''Network error occurred while connecting to TickTick API''
                   ''NETWORK_ERROR'' None (OriginalError ''connect ETIMEDOUT'')))))
   \<and> outcome_of (run (replicate 2 (Call ''id'' ''secret'')
        @ Settle 0 (AxiosFailure network_down) # replicate 2 Microtask) expired_world) 1
     = Some (Threw (TickTickError ''Network error occurred while connecting to TickTick API''
                   ''NETWORK_ERROR'' None (OriginalError ''connect ETIMEDOUT'')))"
  by code_simp

text \<open>
  C4 (amended). \<^verbatim>\<open>setTokens\<close> stores the access token with a lifetime of
  \<open>max (e - 300) 60\<close> seconds, where \<open>e\<close> is \<^verbatim>\<open>expires_in\<close> when it is present and not
  zero, and 3600 otherwise: the token is retrievable up to and including that many
  seconds after the call, and no longer afterwards. The lifetime is never below 60
  seconds. The time \<open>now\<close> of the call is \<^verbatim>\<open>Date.now()\<close>, which is not negative.
\<close>

theorem setTokens_lifetime:
  assumes "0 \<le> now"
  shows "getAccessToken (setTokens tokens now tm) t =
           (if t \<le> now + max (or_default (expires_in tokens) 3600 - 300) 60 * 1000
            then Some (access_token tokens) else None)"
  using assms by (rule access_token_lifetime)

theorem setTokens_lifetime_witness:
  "getAccessToken (setTokens (example_tokens ''A1'' (Some 3600) None) 0 empty_manager) (3299 * 1000) = Some ''A1''
   \<and> getAccessToken (setTokens (example_tokens ''A1'' (Some 3600) None) 0 empty_manager) (3300 * 1000 + 1) = None
   \<and> getAccessToken (setTokens (example_tokens ''A1'' (Some 120) None) 0 empty_manager) (60 * 1000) = Some ''A1''
   \<and> getAccessToken (setTokens (example_tokens ''A1'' (Some 120) None) 0 empty_manager) (60 * 1000 + 1) = None
   \<and> getAccessToken (setTokens (example_tokens ''A1'' None None) 0 empty_manager) (3300 * 1000) = Some ''A1''"
  using setTokens_lifetime [of 0 "example_tokens ''A1'' (Some 3600) None" empty_manager "3299 * 1000"]
        setTokens_lifetime [of 0 "example_tokens ''A1'' (Some 3600) None" empty_manager "3300 * 1000 + 1"]
        setTokens_lifetime [of 0 "example_tokens ''A1'' (Some 120) None" empty_manager "60 * 1000"]
        setTokens_lifetime [of 0 "example_tokens ''A1'' (Some 120) None" empty_manager "60 * 1000 + 1"]
        setTokens_lifetime [of 0 "example_tokens ''A1'' None None" empty_manager "3300 * 1000"]
  by (simp add: example_tokens_def)

text \<open>
  C4 as stated fails for \<^verbatim>\<open>expires_in = 0\<close>: the claimed lifetime is
  \<open>max (0 - 300) 60 = 60\<close> seconds, and the token is still retrievable after 61.
\<close>

theorem setTokens_lifetime_counterexample:
  "getAccessToken (setTokens (example_tokens ''A1'' (Some 0) None) 0 empty_manager) (61 * 1000) = Some ''A1''
   \<and> max ((0::int) - 300) 60 * 1000 < 61 * 1000"
  by (simp add: getAccessToken_def cache_get_def setTokens_access_entry cache_wrap_def cache_check_def example_tokens_def)

text \<open>
  C5 (amended). With no access token cached, no refresh in progress and no refresh
  token present, \<^verbatim>\<open>getValidAccessToken\<close> throws a \<^verbatim>\<open>TokenRefreshError\<close> with the
  message "No refresh token available. Please re-authenticate with TickTick." and no
  details, without sending a request or creating a promise, and leaves the cache and
  \<^verbatim>\<open>refreshPromise\<close> as they were. The error has the class and the code
  \<^verbatim>\<open>TOKEN_REFRESH_ERROR\<close> of the error thrown when a refresh fails.
\<close>

theorem no_refresh_token_fails:
  assumes "\<not> truthy (getAccessToken w (clock w))"
    and "refreshPromise w = None"
    and "\<not> truthy (getRefreshToken w (clock w))"
  shows "outcomes (getValidAccessToken c clientId clientSecret w) c =
           Some (Threw (TickTickError
             ''No refresh token available. Please re-authenticate with TickTick.''
             ''TOKEN_REFRESH_ERROR'' (Some 401) NoDetails))
       \<and> requests (getValidAccessToken c clientId clientSecret w) = requests w
       \<and> promises (getValidAccessToken c clientId clientSecret w) = promises w
       \<and> cache (getValidAccessToken c clientId clientSecret w) = cache w
       \<and> refreshPromise (getValidAccessToken c clientId clientSecret w) = None"
  using gvat_unavailable [OF assms] assms(2) by (simp add: TokenRefreshError_def)

theorem no_refresh_token_fails_witness:
  "outcomes (getValidAccessToken 0 ''id'' ''secret'' (initial 0)) 0 =
           Some (Threw (TickTickError
             ''No refresh token available. Please re-authenticate with TickTick.''
             ''TOKEN_REFRESH_ERROR'' (Some 401) NoDetails))
   \<and> requests (getValidAccessToken 0 ''id'' ''secret'' (initial 0)) = []"
proof -
  have a: "\<not> truthy (getAccessToken (initial 0) (clock (initial 0)))"
    by (simp add: initial_def getAccessToken_def cache_get_def)
  have b: "refreshPromise (initial 0) = None" by (simp add: initial_def)
  have c: "\<not> truthy (getRefreshToken (initial 0) (clock (initial 0)))"
    by (simp add: initial_def getRefreshToken_def cache_get_def)
  from no_refresh_token_fails [OF a b c, of 0 "''id''" "''secret''"]
  show ?thesis by (simp add: initial_def)
qed

text \<open>
  C5 as stated fails. The error thrown without a refresh token and the error thrown
  after a failed refresh have the same code, so the first is not of a distinct kind.
  And while a refresh is in progress, an invocation made with neither token in the
  cache (here after \<^verbatim>\<open>clearTokens\<close>) does not fail: it awaits the refresh and returns
  its token.
\<close>

theorem no_refresh_token_counterexample:
  "thrown_code (outcome_of (run [Call ''id'' ''secret''] (initial 0)) 0)
     = Some ''TOKEN_REFRESH_ERROR''
   \<and> thrown_code (outcome_of (run [Call ''id'' ''secret'',
         Settle 0 (AxiosFailure network_down), Microtask] expired_world) 0)
     = Some ''TOKEN_REFRESH_ERROR''
   \<and> tokens_of (run [Call ''id'' ''secret'', ClearTokens] expired_world) = (None, None)
   \<and> outcome_of (run [Call ''id'' ''secret'', ClearTokens, Call ''id'' ''secret'']
         expired_world) 1 = None
   \<and> outcome_of (run [Call ''id'' ''secret'', ClearTokens, Call ''id'' ''secret'',
         Settle 0 (ResponseData (example_tokens ''A2'' (Some 3600) None)), Microtask, Microtask]
         expired_world) 1 = Some (Returned ''A2'')"
  by code_simp

text \<open>
  C6. \<^verbatim>\<open>setTokens\<close> replaces the stored refresh token by the one of the response when
  the response has one, with a lifetime of 30 days, and leaves the entry of the refresh
  token as it was when the response has none; the entry of the access token is replaced
  in both cases. The response has a refresh token when \<^verbatim>\<open>if (tokens.refresh_token)\<close>
  succeeds, that is, when the field is present and not the empty string.
\<close>

theorem setTokens_rotation:
  "cache (setTokens tokens now tm) ''refresh_token'' =
     (if truthy (refresh_token tokens)
      then Some (cache_wrap (the (refresh_token tokens)) (30 * 24 * 60 * 60) now)
      else cache tm ''refresh_token'')
   \<and> cache (setTokens tokens now tm) ''access_token'' =
       Some (cache_wrap (access_token tokens) (max (or_default (expires_in tokens) 3600 - 300) 60) now)"
  by (simp add: setTokens_def Let_def cache_set_def)

theorem setTokens_rotation_witness:
  "cache (setTokens (example_tokens ''A2'' (Some 3600) (Some ''R2'')) 1000 (setTokens (example_tokens ''A1'' (Some 3600) (Some ''R1'')) 0 empty_manager)) ''refresh_token''
     = Some \<lparr>wv = ''R2'', wt = 2592001000\<rparr>
   \<and> cache (setTokens (example_tokens ''A2'' (Some 3600) None) 1000 (setTokens (example_tokens ''A1'' (Some 3600) (Some ''R1'')) 0 empty_manager)) ''refresh_token''
     = Some \<lparr>wv = ''R1'', wt = 2592000000\<rparr>
   \<and> cache (setTokens (example_tokens ''A2'' (Some 3600) None) 1000 (setTokens (example_tokens ''A1'' (Some 3600) (Some ''R1'')) 0 empty_manager)) ''access_token''
     = Some \<lparr>wv = ''A2'', wt = 3301000\<rparr>"
  using setTokens_rotation [of "example_tokens ''A2'' (Some 3600) (Some ''R2'')" 1000 "setTokens (example_tokens ''A1'' (Some 3600) (Some ''R1'')) 0 empty_manager"]
        setTokens_rotation [of "example_tokens ''A2'' (Some 3600) None" 1000 "setTokens (example_tokens ''A1'' (Some 3600) (Some ''R1'')) 0 empty_manager"]
        setTokens_rotation [of "example_tokens ''A1'' (Some 3600) (Some ''R1'')" 0 empty_manager]
  by (simp add: example_tokens_def cache_wrap_def)

text \<open>
  C7. When the cache holds a live access token, \<^verbatim>\<open>getValidAccessToken\<close> returns it at
  once: the invocation ends with that token, no request is sent and no promise created,
  and the cache, \<^verbatim>\<open>refreshPromise\<close>, the reactions and the microtasks are unchanged.
  A token is a non-empty string: the method tests \<^verbatim>\<open>if (accessToken)\<close>.
\<close>

theorem live_token_returned:
  assumes "getAccessToken w (clock w) = Some tok" and "tok \<noteq> []"
  shows "outcomes (getValidAccessToken c clientId clientSecret w) c = Some (Returned tok)
       \<and> requests (getValidAccessToken c clientId clientSecret w) = requests w
       \<and> promises (getValidAccessToken c clientId clientSecret w) = promises w
       \<and> cache (getValidAccessToken c clientId clientSecret w) = cache w
       \<and> refreshPromise (getValidAccessToken c clientId clientSecret w) = refreshPromise w
       \<and> reactions (getValidAccessToken c clientId clientSecret w) = reactions w
       \<and> microtasks (getValidAccessToken c clientId clientSecret w) = microtasks w"
proof -
  have "truthy (getAccessToken w (clock w))" using assms by simp
  from gvat_cached [OF this] assms(1) show ?thesis by simp
qed

theorem live_token_returned_witness:
  "getAccessToken fresh_world (clock fresh_world) = Some ''A1''
   \<and> outcomes (getValidAccessToken 0 ''id'' ''secret'' fresh_world) 0 = Some (Returned ''A1'')
   \<and> requests (getValidAccessToken 0 ''id'' ''secret'' fresh_world) = []
   \<and> refreshPromise (getValidAccessToken 0 ''id'' ''secret'' fresh_world) = None"
proof -
  have a: "getAccessToken fresh_world (clock fresh_world) = Some ''A1''"
    by (simp add: fresh_world_def expired_world_def getAccessToken_def cache_get_def cache_check_def)
  have b: "''A1'' \<noteq> []" by simp
  from live_token_returned [OF a b, of 0 "''id''" "''secret''"] a
  show ?thesis by (simp add: fresh_world_def expired_world_def)
qed

text \<open>
  C8 (amended). A request that receives an HTTP 429 response waits the interval given
  by the \<^verbatim>\<open>retry-after\<close> header, or 60 seconds without one, and is then sent again;
  this is repeated for every 429 response, however many follow one another: after any
  number of 429 responses the request goes on with the rest of the script, having
  waited once per response and dispatched once more per response. What the request
  throws never has the code \<^verbatim>\<open>RATE_LIMIT_ERROR\<close>.
\<close>

theorem rate_limit_retried_every_time:
  "(\<forall>error \<in> set es. rate_limited error) \<longrightarrow>
     request (map Reject es @ rest) waits = request rest (waits @ map retry_delay es)
     \<and> dispatches (map Reject es @ rest) = length es + dispatches rest
     \<and> (\<forall>e ws. request (map Reject es @ rest) waits = Failed e ws \<longrightarrow>
           code e \<noteq> ''RATE_LIMIT_ERROR'')"
  using request_retries [of es rest waits] request_never_rate_limit_error by blast

theorem rate_limit_retried_every_time_witness:
  "request [Reject (too_many (Some 5)), Reject (too_many (Some 0)), Reject (too_many None),
            Reject network_down] []
     = Failed (TickTickError ''Network error occurred while connecting to TickTick API''
                 ''NETWORK_ERROR'' None (OriginalError ''connect ETIMEDOUT''))
         [5000, 0, 60000]
   \<and> dispatches [Reject (too_many (Some 5)), Reject (too_many (Some 0)), Reject (too_many None),
            Reject network_down] = 4"
proof -
  have "\<forall>error \<in> set [too_many (Some 5), too_many (Some 0), too_many None].
          rate_limited error"
    by (simp add: rate_limited_def too_many_def)
  with rate_limit_retried_every_time
    [of "[too_many (Some 5), too_many (Some 0), too_many None]" "[Reject network_down]" "[]"]
  show ?thesis
    by (simp add: retry_delay_def too_many_def retryAfter_def network_down_def
          handleAxiosError_def)
qed

text \<open>
  C8 as stated fails: a second 429 in a row is answered like the first, by a wait and
  a third dispatch, and a request that only ever receives 429 neither returns nor
  throws.
\<close>

theorem second_rate_limit_counterexample:
  "request [Reject (too_many (Some 5)), Reject (too_many None), Fulfil ok_response] []
     = Resolved ok_response [5000, 60000]
   \<and> dispatches [Reject (too_many (Some 5)), Reject (too_many None), Fulfil ok_response] = 3
   \<and> request [Reject (too_many None), Reject (too_many None)] [] = Outstanding [60000, 60000]"
  by (simp add: too_many_def retryAfter_def)

text \<open>
  C9. \<^verbatim>\<open>getValidAccessToken\<close> does not touch the cache before its first \<^verbatim>\<open>await\<close>.
  When the invocations that converged on a refresh are resumed after the refresh has
  failed with \<open>e\<close>, the cache is what it was before the first of them was made: the
  invocation that started the refresh throws a \<^verbatim>\<open>TokenRefreshError\<close> wrapping \<open>e\<close>,
  one request was sent, and the access token and the refresh token that can be
  retrieved are the same as before.
\<close>

theorem failed_refresh_keeps_cache:
  assumes "reachable w" and "microtasks w = []"
    and "\<not> truthy (getAccessToken w (clock w))" and "refreshPromise w = None"
    and "getRefreshToken w (clock w) = Some r"
    and "refresh_settles a = Rejected e"
  shows "cache (getValidAccessToken (invocations w) clientId clientSecret w) = cache w
    \<and> (\<exists>w1. run (replicate (Suc m) (Call clientId clientSecret)
                  @ Settle (length (promises w)) a # replicate (Suc m) Microtask) w = Some w1
          \<and> cache w1 = cache w
          \<and> requests w1 = requests w @ [(clientId, clientSecret, r)]
          \<and> outcomes w1 (invocations w) =
               Some (Threw (TokenRefreshError
                 ''Failed to refresh access token. Please re-authenticate with TickTick.''
                 (Cause e)))
          \<and> getAccessToken w1 (clock w1) = getAccessToken w (clock w)
          \<and> getRefreshToken w1 (clock w1) = getRefreshToken w (clock w))"
proof (intro conjI)
  have i: "inv w" using assms(1) by (rule reachable_inv)
  note q = assms(2) and na = assms(3) and nh = assms(4) and rt = assms(5) and f = assms(6)
  have tr: "truthy (getRefreshToken w (clock w))" using reachable_refresh_truthy [OF assms(1) rt] .
  show "cache (getValidAccessToken (invocations w) clientId clientSecret w) = cache w"
    by (rule cache_getValidAccessToken)
  let ?w = "converged w clientId clientSecret m"
  let ?p = "length (promises w)"
  have c: "run (replicate (Suc m) (Call clientId clientSecret)) w = Some ?w"
    by (rule calls_converge [OF i q na nh tr])
  have rc: "reachable ?w" using reachable_run [OF assms(1) c] .
  have ic: "inv ?w" using rc by (rule reachable_inv)
  have qc: "microtasks ?w = []" using q by simp
  have pc: "promise_state ?w ?p = Some Pending" by (simp add: promise_state_converged)
  have len: "length (reactions ?w) = Suc m" by simp
  have pos: "0 < Suc m" by simp
  have le: "Suc m \<le> length (reactions ?w)" by simp
  from failed_refresh_drain [OF ic qc pc f pos le]
  obtain w1 where w1: "run (Settle ?p a # replicate (Suc m) Microtask) ?w = Some w1"
    "requests w1 = requests ?w" "cache w1 = cache ?w" "clock w1 = clock ?w"
    "\<forall>c. outcomes w1 c =
                (if c \<in> caller_of ` set (take (Suc m) (reactions ?w))
                 then Some (Threw (thrown_by (last (filter (\<lambda>k. caller_of k = c) (take (Suc m) (reactions ?w)))) e))
                 else outcomes ?w c)"
    by blast
  have r: "run (replicate (Suc m) (Call clientId clientSecret)
                  @ Settle ?p a # replicate (Suc m) Microtask) w = Some w1"
    using c w1(1) by (simp only: run_append option.case)
  have fl: "filter (\<lambda>k. caller_of k = invocations w) (reactions ?w) = [AwaitOwn (invocations w) ?p]"
    by (simp add: filter_empty_conv del: upt_Suc)
  have tk: "take (Suc m) (reactions ?w) = reactions ?w" using len by simp
  have oc: "outcomes w1 (invocations w) =
               Some (Threw (TokenRefreshError
                 ''Failed to refresh access token. Please re-authenticate with TickTick.''
                 (Cause e)))"
    using w1(5) unfolding tk fl by simp
  show "\<exists>w1. run (replicate (Suc m) (Call clientId clientSecret)
                  @ Settle (length (promises w)) a # replicate (Suc m) Microtask) w = Some w1
          \<and> cache w1 = cache w
          \<and> requests w1 = requests w @ [(clientId, clientSecret, r)]
          \<and> outcomes w1 (invocations w) =
               Some (Threw (TokenRefreshError
                 ''Failed to refresh access token. Please re-authenticate with TickTick.''
                 (Cause e)))
          \<and> getAccessToken w1 (clock w1) = getAccessToken w (clock w)
          \<and> getRefreshToken w1 (clock w1) = getRefreshToken w (clock w)"
  proof (intro exI [of _ w1] conjI)
    show "run (replicate (Suc m) (Call clientId clientSecret)
                  @ Settle (length (promises w)) a # replicate (Suc m) Microtask) w = Some w1"
      by (rule r)
    show "cache w1 = cache w" using w1(3) by simp
    show "requests w1 = requests w @ [(clientId, clientSecret, r)]" using w1(2) rt by simp
    show "outcomes w1 (invocations w) =
               Some (Threw (TokenRefreshError
                 ''Failed to refresh access token. Please re-authenticate with TickTick.''
                 (Cause e)))" by (rule oc)
    show "getAccessToken w1 (clock w1) = getAccessToken w (clock w)"
      using w1(3,4) by (simp add: getAccessToken_def)
    show "getRefreshToken w1 (clock w1) = getRefreshToken w (clock w)"
      using w1(3,4) by (simp add: getRefreshToken_def)
  qed
qed

theorem failed_refresh_keeps_cache_witness:
  "\<exists>w1. run (replicate 1 (Call ''id'' ''secret'')
                  @ Settle 0 (AxiosFailure network_down) # replicate 1 Microtask) expired_world = Some w1
          \<and> cache w1 = cache expired_world
          \<and> requests w1 = [(''id'', ''secret'', ''R1'')]
          \<and> getRefreshToken w1 (clock w1) = Some ''R1''"
proof -
  have f: "refresh_settles (AxiosFailure network_down) = Rejected (handleAxiosError network_down)"
    by simp
  have na: "\<not> truthy (getAccessToken expired_world (clock expired_world))"
    by (simp add: expired_world_tokens)
  have q: "microtasks expired_world = []" and nh: "refreshPromise expired_world = None"
    by simp_all
  from failed_refresh_keeps_cache [OF expired_world_reachable q na nh expired_world_tokens(2) f,
      of "''id''" "''secret''" 0]
  obtain w1 where w1: "run (replicate (Suc 0) (Call ''id'' ''secret'')
                  @ Settle (length (promises expired_world)) (AxiosFailure network_down)
                    # replicate (Suc 0) Microtask) expired_world = Some w1"
    "cache w1 = cache expired_world"
    "requests w1 = requests expired_world @ [(''id'', ''secret'', ''R1'')]"
    "getRefreshToken w1 (clock w1) = getRefreshToken expired_world (clock expired_world)"
    by blast
  have r: "run (replicate 1 (Call ''id'' ''secret'')
                  @ Settle 0 (AxiosFailure network_down) # replicate 1 Microtask) expired_world = Some w1"
    using w1(1) by (simp only: expired_world_fields list.size One_nat_def)
  show ?thesis
  proof (intro exI [of _ w1] conjI)
    show "run (replicate 1 (Call ''id'' ''secret'')
                  @ Settle 0 (AxiosFailure network_down) # replicate 1 Microtask) expired_world = Some w1"
      by (rule r)
    show "cache w1 = cache expired_world" by (rule w1(2))
    show "requests w1 = [(''id'', ''secret'', ''R1'')]" using w1(3) by simp
    show "getRefreshToken w1 (clock w1) = Some ''R1''" using w1(4) expired_world_tokens(2) by simp
  qed
qed

text \<open>
  C10. \<^verbatim>\<open>initializeFromEnv\<close> stores nothing when the environment provides no access
  token, whether or not it provides a refresh token. When it provides one, the access
  token is stored as with \<^verbatim>\<open>expires_in = 3600\<close>, hence retrievable for 3300 seconds,
  and the refresh token of the environment, if any, is stored with it. A variable
  provides a token when it is set and not empty (\<^verbatim>\<open>if (accessToken)\<close>).
\<close>

theorem initializeFromEnv_stores:
  "(\<not> truthy (env ''TICKTICK_ACCESS_TOKEN'') \<longrightarrow> initializeFromEnv env now tm = tm)
   \<and> (truthy (env ''TICKTICK_ACCESS_TOKEN'') \<and> 0 \<le> now \<longrightarrow>
        getAccessToken (initializeFromEnv env now tm) t =
          (if t \<le> now + 3300 * 1000 then env ''TICKTICK_ACCESS_TOKEN'' else None)
        \<and> cache (initializeFromEnv env now tm) ''access_token''
            = Some (cache_wrap (the (env ''TICKTICK_ACCESS_TOKEN'')) (3600 - 300) now)
        \<and> cache (initializeFromEnv env now tm) ''refresh_token'' =
            (if truthy (env ''TICKTICK_REFRESH_TOKEN'')
             then Some (cache_wrap (the (env ''TICKTICK_REFRESH_TOKEN'')) (30 * 24 * 60 * 60) now)
             else cache tm ''refresh_token''))"
proof (intro conjI impI)
  assume "\<not> truthy (env ''TICKTICK_ACCESS_TOKEN'')"
  then show "initializeFromEnv env now tm = tm" by (simp add: initializeFromEnv_def)
next
  assume a: "truthy (env ''TICKTICK_ACCESS_TOKEN'') \<and> 0 \<le> now"
  then obtain tok where tok: "env ''TICKTICK_ACCESS_TOKEN'' = Some tok"
    by (cases "env ''TICKTICK_ACCESS_TOKEN''") auto
  let ?tokens = "\<lparr>access_token = tok, token_type = ''Bearer'', expires_in = Some 3600,
                   refresh_token = env ''TICKTICK_REFRESH_TOKEN'', scope = None\<rparr>"
  have eq: "initializeFromEnv env now tm = setTokens ?tokens now tm"
    using a tok by (simp add: initializeFromEnv_def)
  from a have now: "0 \<le> now" by simp
  show "getAccessToken (initializeFromEnv env now tm) t =
          (if t \<le> now + 3300 * 1000 then env ''TICKTICK_ACCESS_TOKEN'' else None)"
    using access_token_lifetime [OF now, of ?tokens tm t] by (simp add: eq tok)
  show "cache (initializeFromEnv env now tm) ''access_token''
            = Some (cache_wrap (the (env ''TICKTICK_ACCESS_TOKEN'')) (3600 - 300) now)"
    using setTokens_access_entry [of ?tokens now tm] by (simp add: eq tok)
  show "cache (initializeFromEnv env now tm) ''refresh_token'' =
            (if truthy (env ''TICKTICK_REFRESH_TOKEN'')
             then Some (cache_wrap (the (env ''TICKTICK_REFRESH_TOKEN'')) (30 * 24 * 60 * 60) now)
             else cache tm ''refresh_token'')"
    by (simp add: eq setTokens_def Let_def cache_set_def)
qed

theorem initializeFromEnv_stores_witness:
  "initializeFromEnv [''TICKTICK_REFRESH_TOKEN'' \<mapsto> ''R1''] 0 empty_manager = empty_manager
   \<and> getAccessToken (initializeFromEnv [''TICKTICK_ACCESS_TOKEN'' \<mapsto> ''A1''] 0 empty_manager) (3300 * 1000) = Some ''A1''
   \<and> getAccessToken (initializeFromEnv [''TICKTICK_ACCESS_TOKEN'' \<mapsto> ''A1''] 0 empty_manager) (3300 * 1000 + 1) = None"
  using initializeFromEnv_stores [of "[''TICKTICK_REFRESH_TOKEN'' \<mapsto> ''R1'']" 0 empty_manager 0]
        initializeFromEnv_stores [of "[''TICKTICK_ACCESS_TOKEN'' \<mapsto> ''A1'']" 0 empty_manager "3300 * 1000"]
        initializeFromEnv_stores [of "[''TICKTICK_ACCESS_TOKEN'' \<mapsto> ''A1'']" 0 empty_manager "3300 * 1000 + 1"]
  by simp

end
